theory Spec2Isabelle
  imports Complex_Main
begin

section \<open>Numeric model\<close>

text \<open>
  The dashboard computes with IEEE double precision numbers through numpy and scipy.
  The development idealises them as the real numbers: \<open>np.log\<close>, \<open>np.exp\<close> and
  \<open>np.sqrt\<close> are \<^const>\<open>ln\<close>, \<^const>\<open>exp\<close> and \<^const>\<open>sqrt\<close>, and the
  standard normal distribution of \<open>scipy.stats.norm\<close> is the mathematical one. Rounding,
  overflow and the IEEE special values are outside this model, except for the result of a
  division by zero, which is made explicit in \<open>np_divide\<close> below.
\<close>

subsection \<open>The standard normal distribution (\<open>scipy.stats.norm\<close>)\<close>

text \<open>
  \<open>gauss_int x\<close> is the integral of \<open>exp (- t\<^sup>2)\<close> from \<open>0\<close> to \<open>x\<close>, given by its
  Maclaurin series, which converges everywhere; \<open>erf\<close> is the error function and
  \<open>norm_cdf\<close> the cumulative distribution function \<open>(1 + erf (x / sqrt 2)) / 2\<close>
  of the standard normal distribution; \<open>norm_pdf\<close> is its density.
\<close>

definition gauss_term :: "real \<Rightarrow> nat \<Rightarrow> real" where
  "gauss_term x m = (- 1) ^ m * x ^ (2 * m + 1) / (fact m * real (2 * m + 1))"

definition gauss_int :: "real \<Rightarrow> real" where
  "gauss_int x = (\<Sum>m. gauss_term x m)"

definition erf :: "real \<Rightarrow> real" where
  "erf x = 2 / sqrt pi * gauss_int x"

definition norm_cdf :: "real \<Rightarrow> real" where
  "norm_cdf x = (1 + erf (x / sqrt 2)) / 2"

definition norm_pdf :: "real \<Rightarrow> real" where
  "norm_pdf x = exp (- (x\<^sup>2) / 2) / sqrt (2 * pi)"

text \<open>
  The coefficients of the series of \<open>gauss_int\<close> as a power series in \<open>x\<close>, used to
  differentiate it term by term.
\<close>

definition gauss_coeff :: "nat \<Rightarrow> real" where
  "gauss_coeff n =
     (if even n then 0 else (- 1) ^ ((n - 1) div 2) / (fact ((n - 1) div 2) * real n))"

text \<open>
  \<open>cos_int m t\<close> is the integral of \<open>cos ^ m\<close> from \<open>0\<close> to \<open>t\<close>, by the
  reduction formula, and \<open>wallis m\<close> its value at \<open>pi / 2\<close>. They bound
  \<open>gauss_int\<close> from above and from below.
\<close>

fun cos_int :: "nat \<Rightarrow> real \<Rightarrow> real" where
  "cos_int 0 t = t"
| "cos_int (Suc 0) t = sin t"
| "cos_int (Suc (Suc m)) t =
     cos t ^ Suc m * sin t / real (m + 2) + real (m + 1) / real (m + 2) * cos_int m t"

definition wallis :: "nat \<Rightarrow> real" where
  "wallis m = cos_int m (pi / 2)"

text \<open>
  The terms of the alternating series \<open>gauss_int x = x * (\<Sum>m. (- 1) ^ m * h_term (x\<^sup>2) m)\<close>,
  used to enclose values of \<open>norm_cdf\<close> between rationals.
\<close>

definition h_term :: "real \<Rightarrow> nat \<Rightarrow> real" where
  "h_term y m = y ^ m / (fact m * real (2 * m + 1))"

subsection \<open>\<open>np.linspace\<close>\<close>

text \<open>
  \<open>np.linspace start stop num\<close> with \<open>num > 1\<close>: the points
  \<open>start + i * step\<close> for \<open>i = 0, ..., num - 1\<close> with \<open>step = (stop - start) / (num - 1)\<close>.
\<close>

definition linspace :: "real \<Rightarrow> real \<Rightarrow> nat \<Rightarrow> real list" where
  "linspace start stop num =
     map (\<lambda>i. start + real i * ((stop - start) / real (num - 1))) [0..<num]"

text \<open>Python's \<open>enumerate\<close>.\<close>

definition enumerate_py :: "'a list \<Rightarrow> (nat \<times> 'a) list" where
  "enumerate_py xs = zip [0..<length xs] xs"

section \<open>Black-Scholes pricing functions\<close>

definition black_scholes_call :: "real \<Rightarrow> real \<Rightarrow> real \<Rightarrow> real \<Rightarrow> real \<Rightarrow> real" where
  "black_scholes_call S K T r sigma =
     (let d1 = (ln (S / K) + (r + 0.5 * sigma\<^sup>2) * T) / (sigma * sqrt T);
          d2 = d1 - sigma * sqrt T
      in S * norm_cdf d1 - K * exp (- r * T) * norm_cdf d2)"

definition black_scholes_put :: "real \<Rightarrow> real \<Rightarrow> real \<Rightarrow> real \<Rightarrow> real \<Rightarrow> real" where
  "black_scholes_put S K T r sigma =
     (let d1 = (ln (S / K) + (r + 0.5 * sigma\<^sup>2) * T) / (sigma * sqrt T);
          d2 = d1 - sigma * sqrt T
      in K * exp (- r * T) * norm_cdf (- d2) - S * norm_cdf (- d1))"

text \<open>
  The term \<open>d1\<close> that the pricing functions and \<open>option_greeks\<close> compute first.
\<close>

definition d1_of :: "real \<Rightarrow> real \<Rightarrow> real \<Rightarrow> real \<Rightarrow> real \<Rightarrow> real" where
  "d1_of S K T r sigma = (ln (S / K) + (r + 0.5 * sigma\<^sup>2) * T) / (sigma * sqrt T)"

section \<open>Greeks\<close>

text \<open>
  \<open>option_greeks\<close> returns the tuple \<open>(Delta, Gamma, Vega, Theta, Rho)\<close>. The branch is
  taken on equality of the \<open>option\<close> string with the literal \<open>call\<close>; every other
  string takes the \<open>else\<close> branch.
\<close>

type_synonym greeks = "real \<times> real \<times> real \<times> real \<times> real"

definition option_greeks ::
  "real \<Rightarrow> real \<Rightarrow> real \<Rightarrow> real \<Rightarrow> real \<Rightarrow> string \<Rightarrow> greeks" where
  "option_greeks S K T r sigma option =
     (let d1 = (ln (S / K) + (r + 0.5 * sigma\<^sup>2) * T) / (sigma * sqrt T);
          d2 = d1 - sigma * sqrt T;
          pdf = norm_pdf d1;
          (Delta, Theta, Rho) =
            (if option = ''call'' then
               (norm_cdf d1,
                - (S * pdf * sigma) / (2 * sqrt T) - r * K * exp (- r * T) * norm_cdf d2,
                K * T * exp (- r * T) * norm_cdf d2)
             else
               (norm_cdf d1 - 1,
                - (S * pdf * sigma) / (2 * sqrt T) + r * K * exp (- r * T) * norm_cdf (- d2),
                - K * T * exp (- r * T) * norm_cdf (- d2)));
          Gamma = pdf / (S * sigma * sqrt T);
          Vega = S * pdf * sqrt T
      in (Delta, Gamma, Vega, Theta, Rho))"

definition Delta_of :: "greeks \<Rightarrow> real" where
  "Delta_of g = (case g of (Delta, Gamma, Vega, Theta, Rho) \<Rightarrow> Delta)"

definition Gamma_of :: "greeks \<Rightarrow> real" where
  "Gamma_of g = (case g of (Delta, Gamma, Vega, Theta, Rho) \<Rightarrow> Gamma)"

definition Vega_of :: "greeks \<Rightarrow> real" where
  "Vega_of g = (case g of (Delta, Gamma, Vega, Theta, Rho) \<Rightarrow> Vega)"

definition Theta_of :: "greeks \<Rightarrow> real" where
  "Theta_of g = (case g of (Delta, Gamma, Vega, Theta, Rho) \<Rightarrow> Theta)"

definition Rho_of :: "greeks \<Rightarrow> real" where
  "Rho_of g = (case g of (Delta, Gamma, Vega, Theta, Rho) \<Rightarrow> Rho)"

section \<open>Division by zero\<close>

text \<open>
  The functions above use the division of the reals, which is total: \<open>a / 0 = 0\<close>. The
  source divides floating-point numbers, and a zero divisor gives \<open>inf\<close>, \<open>-inf\<close> or
  \<open>nan\<close> (with a runtime warning) and no real number. \<open>np_divide\<close> makes this case
  explicit: \<open>None\<close> stands for the outcome that is not a real number. The functions
  below are the three functions of the source once more, with every division through
  \<open>np_divide\<close>; a result \<open>None\<close> says that the formula determines no real number for
  the input, and how floating-point arithmetic continues from an infinity is not modelled.
  Where the divisors are not zero they agree with the functions above (lemma \<open>np_agrees\<close>).
\<close>

definition np_divide :: "real \<Rightarrow> real \<Rightarrow> real option" where
  "np_divide a b = (if b = 0 then None else Some (a / b))"

definition d1_np :: "real \<Rightarrow> real \<Rightarrow> real \<Rightarrow> real \<Rightarrow> real \<Rightarrow> real option" where
  "d1_np S K T r sigma = np_divide (ln (S / K) + (r + 0.5 * sigma\<^sup>2) * T) (sigma * sqrt T)"

definition black_scholes_call_np :: "real \<Rightarrow> real \<Rightarrow> real \<Rightarrow> real \<Rightarrow> real \<Rightarrow> real option" where
  "black_scholes_call_np S K T r sigma =
     (case d1_np S K T r sigma of
        None \<Rightarrow> None
      | Some d1 \<Rightarrow>
          (let d2 = d1 - sigma * sqrt T
           in Some (S * norm_cdf d1 - K * exp (- r * T) * norm_cdf d2)))"

definition black_scholes_put_np :: "real \<Rightarrow> real \<Rightarrow> real \<Rightarrow> real \<Rightarrow> real \<Rightarrow> real option" where
  "black_scholes_put_np S K T r sigma =
     (case d1_np S K T r sigma of
        None \<Rightarrow> None
      | Some d1 \<Rightarrow>
          (let d2 = d1 - sigma * sqrt T
           in Some (K * exp (- r * T) * norm_cdf (- d2) - S * norm_cdf (- d1))))"

definition option_greeks_np ::
  "real \<Rightarrow> real \<Rightarrow> real \<Rightarrow> real \<Rightarrow> real \<Rightarrow> string \<Rightarrow> greeks option" where
  "option_greeks_np S K T r sigma option =
     (case d1_np S K T r sigma of
        None \<Rightarrow> None
      | Some d1 \<Rightarrow>
          (let d2 = d1 - sigma * sqrt T;
               pdf = norm_pdf d1
           in case (np_divide (- (S * pdf * sigma)) (2 * sqrt T),
                    np_divide pdf (S * sigma * sqrt T)) of
                (Some decay, Some Gamma) \<Rightarrow>
                  (let (Delta, Theta, Rho) =
                         (if option = ''call'' then
                            (norm_cdf d1,
                             decay - r * K * exp (- r * T) * norm_cdf d2,
                             K * T * exp (- r * T) * norm_cdf d2)
                          else
                            (norm_cdf d1 - 1,
                             decay + r * K * exp (- r * T) * norm_cdf (- d2),
                             - K * T * exp (- r * T) * norm_cdf (- d2)));
                       Vega = S * pdf * sqrt T
                   in Some (Delta, Gamma, Vega, Theta, Rho))
              | _ \<Rightarrow> None))"

section \<open>Heatmap\<close>

text \<open>
  The profit/loss matrix \<open>pnl\<close> is a list of rows. The assignment \<open>pnl[i, j] = v\<close>
  raises \<open>IndexError\<close> outside the matrix. The loop state carries, next to the matrix,
  the list of the cells assigned so far, in order, so that the number of writes to a cell
  can be stated.
\<close>

datatype py_error = IndexError

record heat_state =
  pnl :: "real list list"
  written :: "(nat \<times> nat) list"

definition np_zeros :: "nat \<Rightarrow> nat \<Rightarrow> real list list" where
  "np_zeros m n = replicate m (replicate n 0)"

definition set_item :: "heat_state \<Rightarrow> nat \<Rightarrow> nat \<Rightarrow> real \<Rightarrow> py_error + heat_state" where
  "set_item st i j v =
     (if i < length (pnl st) \<and> j < length (pnl st ! i)
      then Inr \<lparr>pnl = (pnl st)[i := (pnl st ! i)[j := v]], written = written st @ [(i, j)]\<rparr>
      else Inl IndexError)"

text \<open>The body of the inner loop: price the option for the selected type and store.\<close>

definition heat_price :: "string \<Rightarrow> real \<Rightarrow> real \<Rightarrow> real \<Rightarrow> real \<Rightarrow> real \<Rightarrow> real" where
  "heat_price option S K T r sig =
     (if option = ''call'' then black_scholes_call S K T r sig
      else black_scholes_put S K T r sig)"

fun heat_inner ::
  "real \<Rightarrow> real \<Rightarrow> real \<Rightarrow> real \<Rightarrow> string \<Rightarrow> nat \<Rightarrow> real \<Rightarrow> (nat \<times> real) list \<Rightarrow>
   heat_state \<Rightarrow> py_error + heat_state" where
  "heat_inner K T r purchase_price option i S [] st = Inr st"
| "heat_inner K T r purchase_price option i S ((j, sig) # rest) st =
     (let price = heat_price option S K T r sig
      in case set_item st i j (price - purchase_price) of
           Inl e \<Rightarrow> Inl e
         | Inr st' \<Rightarrow> heat_inner K T r purchase_price option i S rest st')"

fun heat_outer ::
  "real \<Rightarrow> real \<Rightarrow> real \<Rightarrow> real \<Rightarrow> string \<Rightarrow> real list \<Rightarrow> (nat \<times> real) list \<Rightarrow>
   heat_state \<Rightarrow> py_error + heat_state" where
  "heat_outer K T r purchase_price option sigma_vals [] st = Inr st"
| "heat_outer K T r purchase_price option sigma_vals ((i, S) # rest) st =
     (case heat_inner K T r purchase_price option i S (enumerate_py sigma_vals) st of
        Inl e \<Rightarrow> Inl e
      | Inr st' \<Rightarrow> heat_outer K T r purchase_price option sigma_vals rest st')"

text \<open>The value stored in the cell for spot price \<open>S\<close> and volatility \<open>sig\<close>.\<close>

definition cell_value :: "real \<Rightarrow> real \<Rightarrow> real \<Rightarrow> real \<Rightarrow> string \<Rightarrow> real \<Rightarrow> real \<Rightarrow> real" where
  "cell_value K T r pp opt S sig = heat_price opt S K T r sig - pp"

text \<open>
  \<open>plot_pnl_heatmap\<close> up to the matrix handed to the plotting library; the rendering
  itself is not modelled.
\<close>

definition plot_pnl_heatmap ::
  "real \<Rightarrow> real \<Rightarrow> real \<Rightarrow> real \<Rightarrow> string \<Rightarrow> py_error + heat_state" where
  "plot_pnl_heatmap K T r purchase_price option =
     (let S_vals = linspace 50 150 8;
          sigma_vals = linspace 0.1 0.6 8;
          st = \<lparr>pnl = np_zeros (length S_vals) (length sigma_vals), written = []\<rparr>
      in heat_outer K T r purchase_price option sigma_vals (enumerate_py S_vals) st)"

section \<open>Greek curves\<close>

text \<open>
  The body of the loop of \<open>plot_greek_curve\<close>: the \<open>if\<close>/\<open>elif\<close> chain appends the
  selected Greek, and appends nothing for any other name.
\<close>

definition curve_step ::
  "real \<Rightarrow> real \<Rightarrow> real \<Rightarrow> real \<Rightarrow> string \<Rightarrow> string \<Rightarrow> real list \<Rightarrow> real \<Rightarrow> real list" where
  "curve_step K T r sigma greek option values S =
     (case option_greeks S K T r sigma option of (Delta, Gamma, Vega, Theta, Rho) \<Rightarrow>
        if greek = ''Delta'' then values @ [Delta]
        else if greek = ''Gamma'' then values @ [Gamma]
        else if greek = ''Vega'' then values @ [Vega]
        else if greek = ''Theta'' then values @ [Theta]
        else if greek = ''Rho'' then values @ [Rho]
        else values)"

text \<open>
  \<open>plot_greek_curve\<close> up to the two sequences handed to the plotting library: the spot
  prices and the collected values.
\<close>

definition plot_greek_curve ::
  "real \<Rightarrow> real \<Rightarrow> real \<Rightarrow> real \<Rightarrow> string \<Rightarrow> string \<Rightarrow> real list \<times> real list" where
  "plot_greek_curve K T r sigma greek option =
     (let S_vals = linspace 50 150 100;
          values = foldl (curve_step K T r sigma greek option) [] S_vals
      in (S_vals, values))"

text \<open>The component of the tuple that the name \<open>greek\<close> selects.\<close>

definition selected_greek :: "string \<Rightarrow> greeks \<Rightarrow> real" where
  "selected_greek greek g =
     (if greek = ''Delta'' then Delta_of g
      else if greek = ''Gamma'' then Gamma_of g
      else if greek = ''Vega'' then Vega_of g
      else if greek = ''Theta'' then Theta_of g
      else Rho_of g)"

section \<open>The dashboard script\<close>


definition greek_choices :: "string list" where
  "greek_choices = [''Delta'', ''Gamma'', ''Vega'', ''Theta'', ''Rho'']"



section \<open>The Gaussian integral\<close>

lemma gauss_coeff_term:
  "gauss_coeff n * x ^ n = (if even n then 0 else gauss_term x ((n - 1) div 2))"
proof (cases "even n")
  case True
  then show ?thesis by (simp add: gauss_coeff_def)
next
  case False
  then obtain m where n: "n = 2 * m + 1" by (auto elim: oddE)
  show ?thesis by (simp add: n gauss_coeff_def gauss_term_def)
qed

lemma summable_gauss_term: "summable (gauss_term x)"
proof (rule summable_comparison_test')
  show "summable (\<lambda>m. \<bar>x\<bar> * ((x\<^sup>2) ^ m /\<^sub>R fact m))"
    by (intro summable_mult sums_summable [OF exp_converges])
  show "norm (gauss_term x m) \<le> \<bar>x\<bar> * ((x\<^sup>2) ^ m /\<^sub>R fact m)" if "m \<ge> 0" for m
  proof -
    have p: "\<bar>x\<bar> ^ (2 * m + 1) = \<bar>x\<bar> * (x\<^sup>2) ^ m"
      by (simp add: power_mult)
    have "norm (gauss_term x m) = \<bar>x\<bar> ^ (2 * m + 1) / (fact m * real (2 * m + 1))"
      by (simp add: gauss_term_def power_abs abs_mult)
    also have "\<dots> = (\<bar>x\<bar> * (x\<^sup>2) ^ m / fact m) / real (2 * m + 1)"
      by (simp only: p divide_divide_eq_left)
    also have "\<dots> \<le> (\<bar>x\<bar> * (x\<^sup>2) ^ m / fact m) / 1"
      by (rule divide_left_mono) simp_all
    finally show ?thesis by (simp add: divide_inverse mult_ac)
  qed
qed

lemma gauss_int_sums: "gauss_term x sums gauss_int x"
  unfolding gauss_int_def by (rule summable_sums [OF summable_gauss_term])

lemma gauss_coeff_sums: "(\<lambda>n. gauss_coeff n * x ^ n) sums gauss_int x"
  unfolding gauss_coeff_term by (rule sums_if' [OF gauss_int_sums])

lemma gauss_int_power_series: "gauss_int = (\<lambda>x. \<Sum>n. gauss_coeff n * x ^ n)"
  by (rule ext) (rule sums_unique [OF gauss_coeff_sums])

lemma diffs_gauss_coeff:
  "diffs gauss_coeff n * x ^ n = (if even n then (- (x\<^sup>2)) ^ (n div 2) /\<^sub>R fact (n div 2) else 0)"
proof (cases "even n")
  case True
  then obtain m where n: "n = 2 * m" by (auto elim: evenE)
  have "(- (x\<^sup>2)) ^ m = (- 1) ^ m * x ^ (2 * m)"
    by (simp add: power_mult power_minus [of "x\<^sup>2"])
  then show ?thesis
    by (simp add: n diffs_def gauss_coeff_def divide_inverse mult.commute)
next
  case False
  then show ?thesis by (simp add: diffs_def gauss_coeff_def)
qed

lemma diffs_gauss_coeff_sums: "(\<lambda>n. diffs gauss_coeff n * x ^ n) sums exp (- (x\<^sup>2))"
proof -
  have "(\<lambda>n. if even n then (- (x\<^sup>2)) ^ (n div 2) /\<^sub>R fact (n div 2) else (\<lambda>_. 0) ((n - 1) div 2))
          sums (0 + exp (- (x\<^sup>2)))"
    by (rule sums_if [OF sums_zero exp_converges])
  then show ?thesis by (simp add: diffs_gauss_coeff)
qed

lemma DERIV_gauss_int: "(gauss_int has_real_derivative exp (- (x\<^sup>2))) (at x)"
proof -
  have "((\<lambda>x. \<Sum>n. gauss_coeff n * x ^ n) has_real_derivative (\<Sum>n. diffs gauss_coeff n * x ^ n)) (at x)"
    by (rule termdiffs_strong_converges_everywhere) (rule sums_summable [OF gauss_coeff_sums])
  then show ?thesis
    by (simp add: gauss_int_power_series [symmetric] sums_unique [OF diffs_gauss_coeff_sums, symmetric])
qed

lemma gauss_int_0: "gauss_int 0 = 0"
  by (simp add: gauss_int_def gauss_term_def)

lemma gauss_int_minus: "gauss_int (- x) = - gauss_int x"
proof -
  have "gauss_term (- x) = (\<lambda>m. - gauss_term x m)"
    by (rule ext) (simp add: gauss_term_def)
  then show ?thesis
    by (simp add: gauss_int_def suminf_minus [OF summable_gauss_term])
qed

lemma erf_minus: "erf (- x) = - erf x"
  by (simp add: erf_def gauss_int_minus)

lemma norm_cdf_minus: "norm_cdf (- x) = 1 - norm_cdf x"
  by (simp add: norm_cdf_def erf_minus field_simps)

section \<open>Wallis integrals\<close>

lemma two_step_induct:
  assumes "P 0" and "P (Suc 0)" and "\<And>m. P m \<Longrightarrow> P (Suc (Suc m))"
  shows "P (n::nat)"
  using cos_int.induct [of "\<lambda>m t. P m" n 0] assms by blast

lemma cos_int_0: "cos_int m 0 = 0"
  by (induction m rule: two_step_induct) simp_all

lemma reduction_step:
  fixes k c sn cs :: real
  assumes "sn\<^sup>2 = 1 - cs\<^sup>2" and "0 \<le> k"
  shows "(- ((k + 1) * c * sn) * sn + cs * (cs * c)) / (k + 2) + (k + 1) / (k + 2) * c
           = cs * (cs * c)"
proof -
  have "- ((k + 1) * c * sn) * sn + cs * (cs * c) = - ((k + 1) * c) * sn\<^sup>2 + cs\<^sup>2 * c"
    by (simp add: power2_eq_square)
  also have "\<dots> = (k + 2) * (cs * (cs * c)) - (k + 1) * c"
    by (simp only: assms(1)) (simp add: algebra_simps power2_eq_square)
  finally have "(- ((k + 1) * c * sn) * sn + cs * (cs * c)) / (k + 2) + (k + 1) / (k + 2) * c
      = ((k + 2) * (cs * (cs * c)) - (k + 1) * c) / (k + 2) + (k + 1) * c / (k + 2)"
    by simp
  also have "\<dots> = ((k + 2) * (cs * (cs * c))) / (k + 2)"
    by (simp add: diff_divide_distrib)
  also have "\<dots> = cs * (cs * c)"
    using assms(2) by simp
  finally show ?thesis .
qed

lemma DERIV_cos_int: "(cos_int m has_real_derivative cos t ^ m) (at t)"
proof (induction m t rule: cos_int.induct)
  case (1 t)
  have "cos_int 0 = (\<lambda>t. t)" by (rule ext) simp
  then show ?case by simp
next
  case (2 t)
  have "cos_int (Suc 0) = sin" by (rule ext) simp
  then show ?case by (auto intro!: derivative_eq_intros)
next
  case (3 m t)
  have eq: "cos_int (Suc (Suc m)) =
     (\<lambda>t. cos t ^ Suc m * sin t / real (m + 2) + real (m + 1) / real (m + 2) * cos_int m t)"
    by (rule ext) simp
  have s: "(sin t)\<^sup>2 = 1 - (cos t)\<^sup>2"
    by (rule sin_squared_eq)
  have p: "((\<lambda>t. cos t ^ Suc m) has_real_derivative - (real (m + 1) * cos t ^ m * sin t)) (at t)"
    using DERIV_power [OF DERIV_cos [of t], of "Suc m"] by (simp add: mult_ac)
  have q: "((\<lambda>t. cos t ^ Suc m * sin t) has_real_derivative
             - (real (m + 1) * cos t ^ m * sin t) * sin t + cos t * cos t ^ Suc m) (at t)"
    by (rule DERIV_mult [OF p DERIV_sin])
  have "((\<lambda>t. cos t ^ Suc m * sin t / real (m + 2) + real (m + 1) / real (m + 2) * cos_int m t)
          has_real_derivative
          (- (real (m + 1) * cos t ^ m * sin t) * sin t + cos t * cos t ^ Suc m) / real (m + 2)
            + real (m + 1) / real (m + 2) * cos t ^ m) (at t)"
    by (intro DERIV_add DERIV_cdivide [OF q] DERIV_cmult [OF 3])
  moreover have "(- (real (m + 1) * cos t ^ m * sin t) * sin t + cos t * cos t ^ Suc m) / real (m + 2)
            + real (m + 1) / real (m + 2) * cos t ^ m = cos t ^ Suc (Suc m)"
    using reduction_step [OF s, of "real m" "cos t ^ m"] by (simp add: add.commute)
  ultimately show ?case by (simp only: eq)
qed

lemma wallis_0: "wallis 0 = pi / 2"
  by (simp add: wallis_def)

lemma wallis_1: "wallis (Suc 0) = 1"
  by (simp add: wallis_def)

lemma wallis_Suc_Suc: "wallis (Suc (Suc m)) = real (m + 1) / real (m + 2) * wallis m"
  by (simp add: wallis_def)

lemma wallis_pos: "0 < wallis m"
  by (induction m rule: two_step_induct) (simp_all add: wallis_0 wallis_1 wallis_Suc_Suc)

lemma wallis_product: "real (m + 1) * wallis m * wallis (Suc m) = pi / 2"
proof (induction m)
  case 0
  show ?case by (simp add: wallis_0 wallis_1)
next
  case (Suc m)
  have a: "real (m + 2) * wallis (Suc (Suc m)) = real (m + 1) * wallis m"
    by (simp add: wallis_Suc_Suc)
  have "real (Suc m + 1) * wallis (Suc m) * wallis (Suc (Suc m))
          = wallis (Suc m) * (real (m + 2) * wallis (Suc (Suc m)))"
    by (simp add: mult_ac)
  also have "\<dots> = wallis (Suc m) * (real (m + 1) * wallis m)"
    by (simp only: a)
  also have "\<dots> = real (m + 1) * wallis m * wallis (Suc m)"
    by (simp add: mult_ac)
  also have "\<dots> = pi / 2"
    by (rule Suc)
  finally show ?case .
qed

lemma cos_int_mono:
  assumes "0 \<le> a" and "a \<le> b" and "b \<le> pi / 2"
  shows "cos_int m a \<le> cos_int m b"
proof (rule DERIV_nonneg_imp_nondecreasing [OF assms(2)])
  fix t assume t: "a \<le> t" "t \<le> b"
  then have "0 \<le> cos t" using assms by (intro cos_ge_zero) auto
  then have "0 \<le> cos t ^ m" by simp
  then show "\<exists>y. (cos_int m has_real_derivative y) (at t) \<and> 0 \<le> y"
    using DERIV_cos_int by blast
qed

lemma cos_int_le_wallis: "0 \<le> t \<Longrightarrow> t \<le> pi / 2 \<Longrightarrow> cos_int m t \<le> wallis m"
  unfolding wallis_def by (rule cos_int_mono) simp_all

lemma cos_int_Suc_le:
  assumes "0 \<le> b" and "b \<le> pi / 2"
  shows "cos_int (Suc m) b \<le> cos_int m b"
proof -
  have "(\<lambda>t. cos_int m t - cos_int (Suc m) t) 0 \<le> (\<lambda>t. cos_int m t - cos_int (Suc m) t) b"
  proof (rule DERIV_nonneg_imp_nondecreasing [OF assms(1)])
    fix t assume t: "0 \<le> t" "t \<le> b"
    then have c: "0 \<le> cos t" using assms by (intro cos_ge_zero) auto
    have "((\<lambda>t. cos_int m t - cos_int (Suc m) t) has_real_derivative
            cos t ^ m - cos t ^ Suc m) (at t)"
      by (intro derivative_intros DERIV_cos_int)
    moreover have "0 \<le> cos t ^ m - cos t ^ Suc m"
      using c cos_le_one [of t] by (simp add: mult_left_le_one_le)
    ultimately show "\<exists>y. ((\<lambda>t. cos_int m t - cos_int (Suc m) t) has_real_derivative y) (at t)
                       \<and> 0 \<le> y"
      by blast
  qed
  then show ?thesis by (simp add: cos_int_0)
qed

lemma wallis_Suc_le: "wallis (Suc m) \<le> wallis m"
  unfolding wallis_def by (rule cos_int_Suc_le) simp_all

lemma wallis_upper: "(wallis (Suc m))\<^sup>2 \<le> pi / (2 * real (m + 1))"
proof -
  have "(wallis (Suc m))\<^sup>2 \<le> wallis m * wallis (Suc m)"
    unfolding power2_eq_square
    by (rule mult_right_mono [OF wallis_Suc_le]) (rule less_imp_le [OF wallis_pos])
  also have "\<dots> = pi / (2 * real (m + 1))"
    using wallis_product [of m] by (simp add: field_simps)
  finally show ?thesis .
qed

lemma wallis_lower: "pi / (2 * real (m + 1)) \<le> (wallis m)\<^sup>2"
proof -
  have "pi / (2 * real (m + 1)) = wallis m * wallis (Suc m)"
    using wallis_product [of m] by (simp add: field_simps)
  also have "\<dots> \<le> (wallis m)\<^sup>2"
    unfolding power2_eq_square
    by (rule mult_left_mono [OF wallis_Suc_le]) (rule less_imp_le [OF wallis_pos])
  finally show ?thesis .
qed

section \<open>Bounds and limit of the Gaussian integral\<close>

lemma gauss_int_strict_mono: "a < b \<Longrightarrow> gauss_int a < gauss_int b"
  by (rule DERIV_pos_imp_increasing [where f = gauss_int])
     (auto intro: DERIV_gauss_int exI [where x = "exp (- (x\<^sup>2))" for x])

lemma gauss_int_nonneg: "0 \<le> x \<Longrightarrow> 0 \<le> gauss_int x"
  using gauss_int_strict_mono [of 0 x] by (cases "x = 0") (simp_all add: gauss_int_0)

lemma exp_minus_square_le:
  "exp (- (y\<^sup>2)) \<le> 1 / (1 + y\<^sup>2 / real (Suc k)) ^ Suc k"
proof -
  let ?z = "y\<^sup>2 / real (Suc k)"
  have z: "0 \<le> ?z" by simp
  have "(1 + ?z) ^ Suc k \<le> exp ?z ^ Suc k"
    by (rule power_mono [OF exp_ge_add_one_self]) (use z in simp)
  also have "\<dots> = exp (real (Suc k) * ?z)"
    by (rule exp_of_nat_mult [symmetric])
  also have "real (Suc k) * ?z = y\<^sup>2"
    by simp
  finally have le: "(1 + ?z) ^ Suc k \<le> exp (y\<^sup>2)" .
  have pos: "0 < (1 + ?z) ^ Suc k"
    by (rule zero_less_power) (use z in linarith)
  have "exp (- (y\<^sup>2)) = 1 / exp (y\<^sup>2)"
    by (simp add: exp_minus inverse_eq_divide)
  also have "\<dots> \<le> 1 / (1 + ?z) ^ Suc k"
    by (rule divide_left_mono [OF le]) (use pos in simp_all)
  finally show ?thesis .
qed

lemma cos_arctan_power:
  "cos (arctan u) ^ (2 * k) * (1 / (1 + u\<^sup>2)) = 1 / (1 + u\<^sup>2) ^ Suc k"
proof -
  have p: "0 < 1 + u\<^sup>2" by (simp add: add_pos_nonneg)
  have "(cos (arctan u))\<^sup>2 = 1 / (1 + u\<^sup>2)"
    using p by (simp add: cos_arctan power_divide)
  then have "cos (arctan u) ^ (2 * k) = (1 / (1 + u\<^sup>2)) ^ k"
    by (simp add: power_mult)
  then show ?thesis
    by (simp add: power_divide)
qed

lemma gauss_int_le_wallis:
  assumes "0 \<le> x"
  shows "gauss_int x \<le> sqrt (real (Suc k)) * wallis (2 * k)"
proof -
  let ?c = "sqrt (real (Suc k))"
  let ?H = "\<lambda>y. ?c * cos_int (2 * k) (arctan (y / ?c))"
  have c: "0 < ?c" by simp
  have c2: "?c\<^sup>2 = real (Suc k)" by simp
  have "(\<lambda>y. ?H y - gauss_int y) 0 \<le> (\<lambda>y. ?H y - gauss_int y) x"
  proof (rule DERIV_nonneg_imp_nondecreasing [OF assms])
    fix y :: real
    have a: "((\<lambda>y. y / ?c) has_real_derivative 1 / ?c) (at y)"
      by (rule DERIV_cdivide [OF DERIV_ident])
    have b: "((\<lambda>y. arctan (y / ?c)) has_real_derivative
               inverse (1 + (y / ?c)\<^sup>2) * (1 / ?c)) (at y)"
      by (rule DERIV_chain2 [OF DERIV_arctan a])
    have d0: "((\<lambda>y. cos_int (2 * k) (arctan (y / ?c))) has_real_derivative
               cos (arctan (y / ?c)) ^ (2 * k) * (inverse (1 + (y / ?c)\<^sup>2) * (1 / ?c))) (at y)"
      by (rule DERIV_chain2 [OF DERIV_cos_int b])
    have d: "(?H has_real_derivative
               ?c * (cos (arctan (y / ?c)) ^ (2 * k) * (inverse (1 + (y / ?c)\<^sup>2) * (1 / ?c)))) (at y)"
      by (rule DERIV_cmult [OF d0])
    have u: "(y / ?c)\<^sup>2 = y\<^sup>2 / real (Suc k)"
      by (simp only: power_divide c2)
    have e: "?c * (cos (arctan (y / ?c)) ^ (2 * k) * (inverse (1 + (y / ?c)\<^sup>2) * (1 / ?c)))
            = 1 / (1 + y\<^sup>2 / real (Suc k)) ^ Suc k"
    proof -
      have "?c * (cos (arctan (y / ?c)) ^ (2 * k) * (inverse (1 + (y / ?c)\<^sup>2) * (1 / ?c)))
            = cos (arctan (y / ?c)) ^ (2 * k) * (1 / (1 + (y / ?c)\<^sup>2))"
        using c by (simp add: inverse_eq_divide)
      also have "\<dots> = 1 / (1 + (y / ?c)\<^sup>2) ^ Suc k"
        by (rule cos_arctan_power)
      finally show ?thesis by (simp only: u)
    qed
    have d': "(?H has_real_derivative 1 / (1 + y\<^sup>2 / real (Suc k)) ^ Suc k) (at y)"
      using d by (simp only: e)
    have "((\<lambda>y. ?H y - gauss_int y) has_real_derivative
            1 / (1 + y\<^sup>2 / real (Suc k)) ^ Suc k - exp (- (y\<^sup>2))) (at y)"
      by (rule DERIV_diff [OF d' DERIV_gauss_int])
    moreover have "0 \<le> 1 / (1 + y\<^sup>2 / real (Suc k)) ^ Suc k - exp (- (y\<^sup>2))"
      using exp_minus_square_le [of y k] by simp
    ultimately show "\<exists>D. ((\<lambda>y. ?H y - gauss_int y) has_real_derivative D) (at y) \<and> 0 \<le> D"
      by blast
  qed
  then have "gauss_int x \<le> ?H x"
    by (simp add: cos_int_0 gauss_int_0)
  also have "?H x \<le> ?c * wallis (2 * k)"
  proof (rule mult_left_mono [OF cos_int_le_wallis])
    show "0 \<le> arctan (x / ?c)" using assms c by (simp add: zero_le_divide_iff)
    show "arctan (x / ?c) \<le> pi / 2" using arctan_ubound [of "x / ?c"] by simp
    show "0 \<le> ?c" by simp
  qed
  finally show ?thesis .
qed

lemma one_minus_le_exp_power:
  assumes "0 \<le> s" and "s \<le> 1"
  shows "(1 - s) ^ n \<le> exp (- (real n * s))"
proof -
  have "(1 - s) ^ n \<le> exp (- s) ^ n"
    by (rule power_mono) (use assms exp_ge_add_one_self [of "- s"] in simp_all)
  also have "\<dots> = exp (real n * (- s))"
    by (rule exp_of_nat_mult [symmetric])
  finally show ?thesis by simp
qed

lemma wallis_le_gauss_int:
  "sqrt (real n) * wallis (2 * n + 1) \<le> gauss_int (sqrt (real n))"
proof -
  let ?c = "sqrt (real n)"
  let ?F = "\<lambda>t. gauss_int (?c * sin t) - ?c * cos_int (2 * n + 1) t"
  have c: "0 \<le> ?c" by simp
  have c2: "?c\<^sup>2 = real n" by simp
  have "?F 0 \<le> ?F (pi / 2)"
  proof (rule DERIV_nonneg_imp_nondecreasing [OF pi_half_ge_zero])
    fix t :: real
    assume t: "0 \<le> t" "t \<le> pi / 2"
    then have ct: "0 \<le> cos t" by (intro cos_ge_zero) auto
    have g: "((\<lambda>t. gauss_int (?c * sin t)) has_real_derivative
               exp (- ((?c * sin t)\<^sup>2)) * (?c * cos t)) (at t)"
      by (rule DERIV_chain2 [OF DERIV_gauss_int]) (rule DERIV_cmult [OF DERIV_sin])
    have h: "((\<lambda>t. ?c * cos_int (2 * n + 1) t) has_real_derivative
               ?c * cos t ^ (2 * n + 1)) (at t)"
      by (rule DERIV_cmult [OF DERIV_cos_int])
    have d: "(?F has_real_derivative
               exp (- ((?c * sin t)\<^sup>2)) * (?c * cos t) - ?c * cos t ^ (2 * n + 1)) (at t)"
      by (rule DERIV_diff [OF g h])
    have sq: "(?c * sin t)\<^sup>2 = real n * (sin t)\<^sup>2"
      by (simp only: power_mult_distrib c2)
    have "cos t ^ (2 * n) = (1 - (sin t)\<^sup>2) ^ n"
      by (simp add: power_mult cos_squared_eq)
    also have "\<dots> \<le> exp (- (real n * (sin t)\<^sup>2))"
    proof (rule one_minus_le_exp_power)
      show "0 \<le> (sin t)\<^sup>2" by simp
      show "(sin t)\<^sup>2 \<le> 1"
        using sin_cos_squared_add [of t] zero_le_power2 [of "cos t"] by linarith
    qed
    finally have "cos t ^ (2 * n) \<le> exp (- ((?c * sin t)\<^sup>2))"
      by (simp only: sq)
    then have "(?c * cos t) * cos t ^ (2 * n) \<le> (?c * cos t) * exp (- ((?c * sin t)\<^sup>2))"
      by (rule mult_left_mono) (use c ct in simp)
    then have "0 \<le> exp (- ((?c * sin t)\<^sup>2)) * (?c * cos t) - ?c * cos t ^ (2 * n + 1)"
      by (simp add: mult_ac)
    with d show "\<exists>D. (?F has_real_derivative D) (at t) \<and> 0 \<le> D"
      by blast
  qed
  then show ?thesis
    by (simp add: gauss_int_0 cos_int_0 wallis_def)
qed

lemma gauss_int_square_le:
  assumes "0 \<le> x" and "0 < k"
  shows "(gauss_int x)\<^sup>2 \<le> pi / 4 * (1 + 1 / real k)"
proof -
  obtain j where k: "k = Suc j" using assms(2) by (cases k) auto
  have w: "(wallis (2 * k))\<^sup>2 \<le> pi / (4 * real k)"
    using wallis_upper [of "2 * j + 1"] by (simp add: k)
  have "(gauss_int x)\<^sup>2 \<le> (sqrt (real (Suc k)) * wallis (2 * k))\<^sup>2"
    by (rule power_mono [OF gauss_int_le_wallis [OF assms(1)] gauss_int_nonneg [OF assms(1)]])
  also have "\<dots> = real (Suc k) * (wallis (2 * k))\<^sup>2"
    by (simp add: power_mult_distrib)
  also have "\<dots> \<le> real (Suc k) * (pi / (4 * real k))"
    by (rule mult_left_mono [OF w]) simp
  also have "\<dots> = pi / 4 * (1 + 1 / real k)"
    using assms(2) by (simp add: field_simps)
  finally show ?thesis .
qed

lemma gauss_int_le:
  assumes "0 \<le> x"
  shows "gauss_int x \<le> sqrt pi / 2"
proof -
  have sq: "(gauss_int x)\<^sup>2 \<le> pi / 4"
  proof (rule ccontr)
    define c where "c = pi / 4"
    define d where "d = (gauss_int x)\<^sup>2 - c"
    assume "\<not> (gauss_int x)\<^sup>2 \<le> pi / 4"
    then have d: "0 < d" by (simp add: d_def c_def)
    have c: "0 < c" by (simp add: c_def)
    obtain k :: nat where k: "c / d < real k"
      using reals_Archimedean2 by blast
    have "0 < c / d" using c d by simp
    then have rk: "0 < real k" using k by linarith
    then have kpos: "0 < k" by simp
    have "c < real k * d"
      using k d by (simp add: pos_divide_less_eq)
    then have "c / real k < d"
      using rk by (simp add: pos_divide_less_eq mult.commute)
    moreover have "d \<le> c / real k"
      using gauss_int_square_le [OF assms kpos] by (simp add: d_def c_def algebra_simps)
    ultimately show False by simp
  qed
  have "gauss_int x \<le> sqrt (pi / 4)"
    by (rule real_le_rsqrt [OF sq])
  also have "sqrt (pi / 4) = sqrt pi / 2"
    by (simp add: real_sqrt_divide)
  finally show ?thesis .
qed

lemma gauss_int_less: "gauss_int x < sqrt pi / 2"
proof -
  have "gauss_int x < gauss_int (max x 0 + 1)"
    by (rule gauss_int_strict_mono) simp
  also have "\<dots> \<le> sqrt pi / 2"
    by (rule gauss_int_le) simp
  finally show ?thesis .
qed

lemma gauss_int_greater: "- (sqrt pi / 2) < gauss_int x"
  using gauss_int_less [of "- x"] by (simp add: gauss_int_minus)

lemma gauss_int_sqrt_ge:
  "sqrt pi / 2 * sqrt (real n / real (n + 1)) \<le> gauss_int (sqrt (real n))"
proof -
  have "pi / (4 * real (n + 1)) \<le> (wallis (2 * n + 1))\<^sup>2"
    using wallis_lower [of "2 * n + 1"] by (simp add: algebra_simps)
  then have "sqrt (pi / (4 * real (n + 1))) \<le> wallis (2 * n + 1)"
    by (rule real_le_lsqrt [OF less_imp_le [OF wallis_pos]])
  then have "sqrt (real n) * sqrt (pi / (4 * real (n + 1))) \<le> sqrt (real n) * wallis (2 * n + 1)"
    by (rule mult_left_mono) simp
  also have "\<dots> \<le> gauss_int (sqrt (real n))"
    by (rule wallis_le_gauss_int)
  also have "sqrt (real n) * sqrt (pi / (4 * real (n + 1)))
               = sqrt pi / 2 * sqrt (real n / real (n + 1))"
    by (simp only: real_sqrt_divide real_sqrt_mult real_sqrt_four) simp
  finally show ?thesis .
qed

lemma gauss_int_at_top: "(gauss_int \<longlongrightarrow> sqrt pi / 2) at_top"
proof (rule order_tendstoI)
  fix a :: real
  assume "sqrt pi / 2 < a"
  then have "gauss_int x < a" for x
    using gauss_int_less [of x] by simp
  then show "eventually (\<lambda>x. gauss_int x < a) at_top"
    by simp
next
  fix a :: real
  assume a: "a < sqrt pi / 2"
  have "\<exists>n. a < sqrt pi / 2 * sqrt (real n / real (n + 1))"
  proof -
    have lim: "(\<lambda>n. sqrt pi / 2 * sqrt (real n / real (n + 1))) \<longlonglongrightarrow> sqrt pi / 2 * sqrt 1"
    proof (intro tendsto_intros)
      have "(\<lambda>n. 1 - 1 / real (Suc n)) \<longlonglongrightarrow> 1 - 0"
        by (intro tendsto_intros LIMSEQ_inverse_real_of_nat [unfolded inverse_eq_divide])
      moreover have "(\<lambda>n. 1 - 1 / real (Suc n)) = (\<lambda>n. real n / real (n + 1))"
        by (rule ext) (simp add: field_simps)
      ultimately show "(\<lambda>n. real n / real (n + 1)) \<longlonglongrightarrow> 1" by simp
    qed
    have "eventually (\<lambda>n. a < sqrt pi / 2 * sqrt (real n / real (n + 1))) sequentially"
      using order_tendstoD(1) [OF lim, of a] a by simp
    then show ?thesis
      by (auto simp: eventually_sequentially)
  qed
  then obtain n where n: "a < sqrt pi / 2 * sqrt (real n / real (n + 1))" ..
  have "a < gauss_int x" if "sqrt (real n) \<le> x" for x
  proof -
    have "a < gauss_int (sqrt (real n))"
      using n gauss_int_sqrt_ge [of n] by simp
    also have "\<dots> \<le> gauss_int x"
      using that gauss_int_strict_mono [of "sqrt (real n)" x] by (cases "sqrt (real n) = x") auto
    finally show ?thesis .
  qed
  then show "eventually (\<lambda>x. a < gauss_int x) at_top"
    unfolding eventually_at_top_linorder by blast
qed

lemma erf_less_1: "erf x < 1"
proof -
  have "2 / sqrt pi * gauss_int x < 2 / sqrt pi * (sqrt pi / 2)"
    by (rule mult_strict_left_mono [OF gauss_int_less]) simp
  then show ?thesis by (simp add: erf_def)
qed

lemma erf_greater: "- 1 < erf x"
  using erf_less_1 [of "- x"] by (simp add: erf_minus)

lemma erf_at_top: "(erf \<longlongrightarrow> 1) at_top"
proof -
  have "((\<lambda>x. 2 / sqrt pi * gauss_int x) \<longlongrightarrow> 2 / sqrt pi * (sqrt pi / 2)) at_top"
    by (rule tendsto_mult_left [OF gauss_int_at_top])
  moreover have "(\<lambda>x. 2 / sqrt pi * gauss_int x) = erf"
    by (rule ext) (simp add: erf_def)
  ultimately show ?thesis by simp
qed

lemma norm_cdf_pos: "0 < norm_cdf x"
  using erf_greater [of "x / sqrt 2"] by (simp add: norm_cdf_def)

lemma norm_cdf_less_1: "norm_cdf x < 1"
  using erf_less_1 [of "x / sqrt 2"] by (simp add: norm_cdf_def)

lemma norm_cdf_0: "norm_cdf 0 = 1 / 2"
  by (simp add: norm_cdf_def erf_def gauss_int_0)


lemma DERIV_norm_cdf: "(norm_cdf has_real_derivative norm_pdf x) (at x)"
proof -
  have a: "((\<lambda>x. x / sqrt 2) has_real_derivative 1 / sqrt 2) (at x)"
    by (rule DERIV_cdivide [OF DERIV_ident])
  have b: "((\<lambda>x. gauss_int (x / sqrt 2)) has_real_derivative
             exp (- ((x / sqrt 2)\<^sup>2)) * (1 / sqrt 2)) (at x)"
    by (rule DERIV_chain2 [OF DERIV_gauss_int a])
  have c: "((\<lambda>x. 2 / sqrt pi * gauss_int (x / sqrt 2)) has_real_derivative
             2 / sqrt pi * (exp (- ((x / sqrt 2)\<^sup>2)) * (1 / sqrt 2))) (at x)"
    by (rule DERIV_cmult [OF b])
  have d: "((\<lambda>x. (1 + 2 / sqrt pi * gauss_int (x / sqrt 2)) / 2) has_real_derivative
             (0 + 2 / sqrt pi * (exp (- ((x / sqrt 2)\<^sup>2)) * (1 / sqrt 2))) / 2) (at x)"
    by (rule DERIV_cdivide [OF DERIV_add [OF DERIV_const c]])
  have f: "(\<lambda>x. (1 + 2 / sqrt pi * gauss_int (x / sqrt 2)) / 2) = norm_cdf"
    by (rule ext) (simp add: norm_cdf_def erf_def)
  have u: "(x / sqrt 2)\<^sup>2 = x\<^sup>2 / 2"
    by (simp add: power_divide)
  have v: "(0 + 2 / sqrt pi * (exp (- ((x / sqrt 2)\<^sup>2)) * (1 / sqrt 2))) / 2 = norm_pdf x"
    unfolding u by (simp add: norm_pdf_def real_sqrt_mult)
  show ?thesis using d by (simp only: f v)
qed

lemma norm_cdf_at_top: "(norm_cdf \<longlongrightarrow> 1) at_top"
proof -
  have "filterlim (\<lambda>x::real. 1 / sqrt 2 * x) at_top at_top"
    by (rule filterlim_tendsto_pos_mult_at_top [OF tendsto_const _ filterlim_ident]) simp
  then have s: "filterlim (\<lambda>x::real. x / sqrt 2) at_top at_top"
    by simp
  have "((\<lambda>x. erf (x / sqrt 2)) \<longlongrightarrow> 1) at_top"
    by (rule filterlim_compose [OF erf_at_top s])
  then have "((\<lambda>x. (1 + erf (x / sqrt 2)) / 2) \<longlongrightarrow> (1 + 1) / 2) at_top"
    by (intro tendsto_divide tendsto_add tendsto_const) simp_all
  moreover have "(\<lambda>x. (1 + erf (x / sqrt 2)) / 2) = norm_cdf"
    by (rule ext) (simp add: norm_cdf_def)
  ultimately show ?thesis by simp
qed

lemma norm_cdf_at_bot: "(norm_cdf \<longlongrightarrow> 0) at_bot"
proof -
  have "((\<lambda>x. norm_cdf (- x)) \<longlongrightarrow> 1) at_bot"
    by (rule filterlim_compose [OF norm_cdf_at_top filterlim_uminus_at_top_at_bot])
  then have "((\<lambda>x. 1 - norm_cdf (- x)) \<longlongrightarrow> 1 - 1) at_bot"
    by (intro tendsto_intros)
  moreover have "(\<lambda>x. 1 - norm_cdf (- x)) = norm_cdf"
    by (rule ext) (simp add: norm_cdf_minus)
  ultimately show ?thesis by simp
qed

section \<open>Put-call parity\<close>

text \<open>
  C1: put-call parity. For \<open>S > 0\<close>, \<open>K > 0\<close>, \<open>T > 0\<close>, \<open>sigma > 0\<close> and any
  \<open>r\<close>, the call price minus the put price is \<open>S - K * exp (- r * T)\<close>.
\<close>

theorem put_call_parity:
  assumes "S > 0" and "K > 0" and "T > 0" and "sigma > 0"
  shows "black_scholes_call S K T r sigma - black_scholes_put S K T r sigma
           = S - K * exp (- r * T)"
  by (simp add: black_scholes_call_def black_scholes_put_def Let_def norm_cdf_minus
      algebra_simps)

theorem put_call_parity_witness:
  "(100::real) > 0 \<and> (1::real) > 0 \<and> (0.2::real) > 0
   \<and> black_scholes_call 100 100 1 0.05 0.2 - black_scholes_put 100 100 1 0.05 0.2
       = 100 - 100 * exp (- 0.05 * 1)"
  using put_call_parity [of 100 100 1 "0.2" "0.05"] by simp

section \<open>Delta of the call and monotonicity in the spot price\<close>

lemma black_scholes_call_d1:
  "black_scholes_call S K T r sigma
     = S * norm_cdf (d1_of S K T r sigma)
       - K * exp (- r * T) * norm_cdf (d1_of S K T r sigma - sigma * sqrt T)"
  by (simp add: black_scholes_call_def d1_of_def Let_def)

lemma black_scholes_put_call:
  "black_scholes_put S K T r sigma = black_scholes_call S K T r sigma - S + K * exp (- r * T)"
  by (simp add: black_scholes_call_def black_scholes_put_def Let_def norm_cdf_minus
      algebra_simps)

lemma pdf_identity:
  assumes "S > 0" and "K > 0" and "T > 0" and "sigma > 0"
  shows "K * exp (- r * T) * norm_pdf (d1_of S K T r sigma - sigma * sqrt T)
           = S * norm_pdf (d1_of S K T r sigma)"
proof -
  define b where "b = sigma * sqrt T"
  define d where "d = d1_of S K T r sigma"
  have b: "0 < b" using assms by (simp add: b_def)
  have b2: "b\<^sup>2 = sigma\<^sup>2 * T"
    using assms by (simp add: b_def power_mult_distrib)
  have bd: "b * d = ln (S / K) + (r + 0.5 * sigma\<^sup>2) * T"
    using b by (simp add: d_def d1_of_def b_def [symmetric])
  have "- ((d - b)\<^sup>2) / 2 = - (d\<^sup>2) / 2 + (b * d - b\<^sup>2 / 2)"
    by (simp add: power2_diff field_simps)
  also have "b * d - b\<^sup>2 / 2 = ln (S / K) + r * T"
    by (simp add: bd b2 algebra_simps)
  finally have "- ((d - b)\<^sup>2) / 2 = - (d\<^sup>2) / 2 + (ln (S / K) + r * T)" .
  then have "exp (- ((d - b)\<^sup>2) / 2) = exp (- (d\<^sup>2) / 2) * (exp (ln (S / K)) * exp (r * T))"
    by (simp only: exp_add)
  also have "exp (ln (S / K)) = S / K"
    using assms by simp
  finally have e: "exp (- ((d - b)\<^sup>2) / 2) = exp (- (d\<^sup>2) / 2) * (S / K * exp (r * T))" .
  have "norm_pdf (d - b) = exp (- (d\<^sup>2) / 2) * (S / K * exp (r * T)) / sqrt (2 * pi)"
    unfolding norm_pdf_def e ..
  also have "\<dots> = (S / K * exp (r * T)) * norm_pdf d"
    by (simp add: norm_pdf_def)
  finally have "K * exp (- r * T) * norm_pdf (d - b)
                  = (K * (S / K)) * (exp (- r * T) * exp (r * T)) * norm_pdf d"
    by simp
  also have "K * (S / K) = S"
    using assms by simp
  also have "exp (- r * T) * exp (r * T) = 1"
    by (simp add: exp_add [symmetric])
  finally show ?thesis
    by (simp add: d_def b_def)
qed

lemma DERIV_d1_of:
  assumes "S > 0" and "K > 0" and "T > 0" and "sigma > 0"
  shows "((\<lambda>S. d1_of S K T r sigma) has_real_derivative 1 / (S * (sigma * sqrt T))) (at S)"
proof -
  have q: "((\<lambda>S. S / K) has_real_derivative 1 / K) (at S)"
    by (rule DERIV_cdivide [OF DERIV_ident])
  have l: "((\<lambda>S. ln (S / K)) has_real_derivative inverse (S / K) * (1 / K)) (at S)"
    by (rule DERIV_chain2 [OF DERIV_ln q]) (use assms in simp)
  have "((\<lambda>S. (ln (S / K) + (r + 0.5 * sigma\<^sup>2) * T) / (sigma * sqrt T)) has_real_derivative
          (inverse (S / K) * (1 / K) + 0) / (sigma * sqrt T)) (at S)"
    by (rule DERIV_cdivide [OF DERIV_add [OF l DERIV_const]])
  moreover have "(inverse (S / K) * (1 / K) + 0) / (sigma * sqrt T) = 1 / (S * (sigma * sqrt T))"
    using assms by (simp add: field_simps)
  moreover have "(\<lambda>S. (ln (S / K) + (r + 0.5 * sigma\<^sup>2) * T) / (sigma * sqrt T))
                   = (\<lambda>S. d1_of S K T r sigma)"
    by (rule ext) (simp add: d1_of_def)
  ultimately show ?thesis by simp
qed

lemma DERIV_black_scholes_call:
  assumes "S > 0" and "K > 0" and "T > 0" and "sigma > 0"
  shows "((\<lambda>S. black_scholes_call S K T r sigma) has_real_derivative
            norm_cdf (d1_of S K T r sigma)) (at S)"
proof -
  define b where "b = sigma * sqrt T"
  define c where "c = K * exp (- r * T)"
  define d where "d = d1_of S K T r sigma"
  define D where "D = 1 / (S * b)"
  have dd: "((\<lambda>S. d1_of S K T r sigma) has_real_derivative D) (at S)"
    unfolding D_def b_def by (rule DERIV_d1_of [OF assms])
  have d2: "((\<lambda>S. d1_of S K T r sigma - b) has_real_derivative D - 0) (at S)"
    by (rule DERIV_diff [OF dd DERIV_const])
  have n1: "((\<lambda>S. norm_cdf (d1_of S K T r sigma)) has_real_derivative norm_pdf d * D) (at S)"
    unfolding d_def by (rule DERIV_chain2 [OF DERIV_norm_cdf dd])
  have n2: "((\<lambda>S. norm_cdf (d1_of S K T r sigma - b)) has_real_derivative
              norm_pdf (d - b) * (D - 0)) (at S)"
    unfolding d_def by (rule DERIV_chain2 [OF DERIV_norm_cdf d2])
  have t1: "((\<lambda>S. S * norm_cdf (d1_of S K T r sigma)) has_real_derivative
              1 * norm_cdf d + norm_pdf d * D * S) (at S)"
    unfolding d_def by (rule DERIV_mult [OF DERIV_ident n1 [unfolded d_def]])
  have t2: "((\<lambda>S. c * norm_cdf (d1_of S K T r sigma - b)) has_real_derivative
              c * (norm_pdf (d - b) * (D - 0))) (at S)"
    by (rule DERIV_cmult [OF n2])
  have t: "((\<lambda>S. S * norm_cdf (d1_of S K T r sigma) - c * norm_cdf (d1_of S K T r sigma - b))
              has_real_derivative
              1 * norm_cdf d + norm_pdf d * D * S - c * (norm_pdf (d - b) * (D - 0))) (at S)"
    by (rule DERIV_diff [OF t1 t2])
  have id: "c * norm_pdf (d - b) = S * norm_pdf d"
    unfolding c_def d_def b_def by (rule pdf_identity [OF assms])
  have "1 * norm_cdf d + norm_pdf d * D * S - c * (norm_pdf (d - b) * (D - 0))
          = norm_cdf d + (S * norm_pdf d) * D - (c * norm_pdf (d - b)) * D"
    by (simp add: algebra_simps)
  also have "\<dots> = norm_cdf d"
    by (simp only: id)
  finally have v: "1 * norm_cdf d + norm_pdf d * D * S - c * (norm_pdf (d - b) * (D - 0))
          = norm_cdf d" .
  have f: "(\<lambda>S. S * norm_cdf (d1_of S K T r sigma) - c * norm_cdf (d1_of S K T r sigma - b))
             = (\<lambda>S. black_scholes_call S K T r sigma)"
    by (rule ext) (simp add: black_scholes_call_d1 c_def b_def)
  have "((\<lambda>S. black_scholes_call S K T r sigma) has_real_derivative norm_cdf d) (at S)"
    using t unfolding v f .
  then show ?thesis
    by (simp only: d_def)
qed

text \<open>
  C4: for \<open>K > 0\<close>, \<open>T > 0\<close>, \<open>sigma > 0\<close>, any \<open>r\<close> and spot prices
  \<open>0 < S1 \<le> S2\<close>, the call price at \<open>S1\<close> is at most the call price at \<open>S2\<close>
  and the put price at \<open>S1\<close> is at least the put price at \<open>S2\<close>.
\<close>

theorem price_monotone_in_spot:
  assumes "K > 0" and "T > 0" and "sigma > 0" and "0 < S1" and "S1 \<le> S2"
  shows "black_scholes_call S1 K T r sigma \<le> black_scholes_call S2 K T r sigma
       \<and> black_scholes_put S1 K T r sigma \<ge> black_scholes_put S2 K T r sigma"
proof
  show "black_scholes_call S1 K T r sigma \<le> black_scholes_call S2 K T r sigma"
  proof (rule DERIV_nonneg_imp_nondecreasing [OF assms(5)])
    fix S assume "S1 \<le> S" "S \<le> S2"
    then have S: "0 < S" using assms(4) by simp
    show "\<exists>y. ((\<lambda>S. black_scholes_call S K T r sigma) has_real_derivative y) (at S) \<and> 0 \<le> y"
      using DERIV_black_scholes_call [OF S assms(1-3)] less_imp_le [OF norm_cdf_pos]
      by blast
  qed
  have "(\<lambda>S. S - black_scholes_call S K T r sigma) S1
          \<le> (\<lambda>S. S - black_scholes_call S K T r sigma) S2"
  proof (rule DERIV_nonneg_imp_nondecreasing [OF assms(5)])
    fix S assume "S1 \<le> S" "S \<le> S2"
    then have S: "0 < S" using assms(4) by simp
    have "((\<lambda>S. S - black_scholes_call S K T r sigma) has_real_derivative
            1 - norm_cdf (d1_of S K T r sigma)) (at S)"
      by (rule DERIV_diff [OF DERIV_ident DERIV_black_scholes_call [OF S assms(1-3)]])
    moreover have "0 \<le> 1 - norm_cdf (d1_of S K T r sigma)"
      using norm_cdf_less_1 [of "d1_of S K T r sigma"] by simp
    ultimately show "\<exists>y. ((\<lambda>S. S - black_scholes_call S K T r sigma) has_real_derivative y) (at S)
                       \<and> 0 \<le> y"
      by blast
  qed
  then show "black_scholes_put S1 K T r sigma \<ge> black_scholes_put S2 K T r sigma"
    by (simp add: black_scholes_put_call)
qed

theorem price_monotone_in_spot_witness:
  "(100::real) > 0 \<and> (1::real) > 0 \<and> (0.2::real) > 0 \<and> (0::real) < 90 \<and> (90::real) \<le> 110
   \<and> black_scholes_call 90 100 1 0.05 0.2 \<le> black_scholes_call 110 100 1 0.05 0.2
   \<and> black_scholes_put 90 100 1 0.05 0.2 \<ge> black_scholes_put 110 100 1 0.05 0.2"
  using price_monotone_in_spot [of 100 1 "0.2" 90 110 "0.05"] by simp



section \<open>The call price as the volatility tends to zero\<close>

lemma d1_of_split:
  assumes "T > 0" and "sigma > 0"
  shows "d1_of S K T r sigma
           = (ln (S / K) + r * T) / sqrt T * inverse sigma + sigma * sqrt T / 2"
proof -
  have q: "sqrt T * sqrt T = T" using assms by simp
  have n: "ln (S / K) + (r + 0.5 * sigma\<^sup>2) * T = (ln (S / K) + r * T) + sigma\<^sup>2 * T / 2"
    by (simp add: algebra_simps)
  have "(ln (S / K) + (r + 0.5 * sigma\<^sup>2) * T) / (sigma * sqrt T)
          = (ln (S / K) + r * T) / (sigma * sqrt T) + (sigma\<^sup>2 * T / 2) / (sigma * sqrt T)"
    by (simp only: n add_divide_distrib)
  also have "(sigma\<^sup>2 * T / 2) / (sigma * sqrt T) = sigma * sqrt T / 2"
  proof -
    have "sigma\<^sup>2 * T / 2 = (sigma * sqrt T / 2) * (sigma * sqrt T)"
      using q by (simp add: power2_eq_square algebra_simps)
    then show ?thesis using assms by simp
  qed
  finally have e: "(ln (S / K) + (r + 0.5 * sigma\<^sup>2) * T) / (sigma * sqrt T)
          = (ln (S / K) + r * T) / (sigma * sqrt T) + sigma * sqrt T / 2" .
  have f: "(ln (S / K) + r * T) / (sigma * sqrt T) = (ln (S / K) + r * T) / sqrt T * inverse sigma"
    using assms by (simp add: field_simps)
  show ?thesis
    unfolding d1_of_def e f ..
qed

lemma small_term_at_right: "((\<lambda>s::real. s * q / 2) \<longlongrightarrow> 0) (at_right 0)"
proof -
  have "((\<lambda>s::real. s * q / 2) \<longlongrightarrow> 0 * q / 2) (at_right 0)"
    by (intro tendsto_divide tendsto_mult tendsto_const tendsto_ident_at) simp
  then show ?thesis by simp
qed

lemma scaled_inverse_at_top:
  assumes "0 < c"
  shows "filterlim (\<lambda>s::real. c * inverse s) at_top (at_right 0)"
  by (rule filterlim_tendsto_pos_mult_at_top [OF tendsto_const assms filterlim_inverse_at_top_right])

lemma arg_at_top:
  assumes "0 < c"
  shows "filterlim (\<lambda>s::real. c * inverse s + s * q / 2) at_top (at_right 0)"
    and "filterlim (\<lambda>s::real. c * inverse s + s * q / 2 - s * q) at_top (at_right 0)"
proof -
  have "filterlim (\<lambda>s::real. s * q / 2 + c * inverse s) at_top (at_right 0)"
    by (rule filterlim_tendsto_add_at_top [OF small_term_at_right scaled_inverse_at_top [OF assms]])
  then show "filterlim (\<lambda>s::real. c * inverse s + s * q / 2) at_top (at_right 0)"
    by (simp add: add.commute)
  have "filterlim (\<lambda>s::real. s * (- q) / 2 + c * inverse s) at_top (at_right 0)"
    by (rule filterlim_tendsto_add_at_top [OF small_term_at_right scaled_inverse_at_top [OF assms]])
  moreover have "(\<lambda>s::real. s * (- q) / 2 + c * inverse s) = (\<lambda>s. c * inverse s + s * q / 2 - s * q)"
    by (rule ext) (simp add: field_simps)
  ultimately show "filterlim (\<lambda>s::real. c * inverse s + s * q / 2 - s * q) at_top (at_right 0)"
    by simp
qed

lemma arg_at_bot:
  assumes "c < 0"
  shows "filterlim (\<lambda>s::real. c * inverse s + s * q / 2) at_bot (at_right 0)"
    and "filterlim (\<lambda>s::real. c * inverse s + s * q / 2 - s * q) at_bot (at_right 0)"
proof -
  have c: "0 < - c" using assms by simp
  have "filterlim (\<lambda>s::real. (- c) * inverse s + s * (- q) / 2 - s * (- q)) at_top (at_right 0)"
    by (rule arg_at_top(2) [OF c])
  moreover have "(\<lambda>s::real. (- c) * inverse s + s * (- q) / 2 - s * (- q))
                   = (\<lambda>s. - (c * inverse s + s * q / 2 - s * q))"
    by (rule ext) (simp add: field_simps)
  ultimately show "filterlim (\<lambda>s::real. c * inverse s + s * q / 2 - s * q) at_bot (at_right 0)"
    by (simp add: filterlim_uminus_at_bot)
  have "filterlim (\<lambda>s::real. (- c) * inverse s + s * (- q) / 2) at_top (at_right 0)"
    by (rule arg_at_top(1) [OF c])
  moreover have "(\<lambda>s::real. (- c) * inverse s + s * (- q) / 2)
                   = (\<lambda>s. - (c * inverse s + s * q / 2))"
    by (rule ext) (simp add: field_simps)
  ultimately show "filterlim (\<lambda>s::real. c * inverse s + s * q / 2) at_bot (at_right 0)"
    by (simp add: filterlim_uminus_at_bot)
qed

lemma arg_at_zero:
  shows "((\<lambda>s::real. 0 * inverse s + s * q / 2) \<longlongrightarrow> 0) (at_right 0)"
    and "((\<lambda>s::real. 0 * inverse s + s * q / 2 - s * q) \<longlongrightarrow> 0) (at_right 0)"
proof -
  show "((\<lambda>s::real. 0 * inverse s + s * q / 2) \<longlongrightarrow> 0) (at_right 0)"
    using small_term_at_right [of q] by simp
  have "(\<lambda>s::real. 0 * inverse s + s * q / 2 - s * q) = (\<lambda>s. s * (- q) / 2)"
    by (rule ext) (simp add: field_simps)
  then show "((\<lambda>s::real. 0 * inverse s + s * q / 2 - s * q) \<longlongrightarrow> 0) (at_right 0)"
    using small_term_at_right [of "- q"] by simp
qed

lemma isCont_norm_cdf: "isCont norm_cdf x"
  by (rule DERIV_isCont [OF DERIV_norm_cdf])

lemma cdf_limits:
  fixes c q :: real
  defines "L \<equiv> (if 0 < c then 1 else if c < 0 then 0 else 1 / 2)"
  shows "((\<lambda>s. norm_cdf (c * inverse s + s * q / 2)) \<longlongrightarrow> L) (at_right 0)"
    and "((\<lambda>s. norm_cdf (c * inverse s + s * q / 2 - s * q)) \<longlongrightarrow> L) (at_right 0)"
proof -
  consider "0 < c" | "c < 0" | "c = 0" by linarith
  then have "((\<lambda>s. norm_cdf (c * inverse s + s * q / 2)) \<longlongrightarrow> L) (at_right 0)
           \<and> ((\<lambda>s. norm_cdf (c * inverse s + s * q / 2 - s * q)) \<longlongrightarrow> L) (at_right 0)"
  proof cases
    case 1
    then have "L = 1" by (simp add: L_def)
    then show ?thesis
      using filterlim_compose [OF norm_cdf_at_top arg_at_top(1) [OF 1, of q]]
        filterlim_compose [OF norm_cdf_at_top arg_at_top(2) [OF 1, of q]]
      by simp
  next
    case 2
    then have "L = 0" by (simp add: L_def)
    then show ?thesis
      using filterlim_compose [OF norm_cdf_at_bot arg_at_bot(1) [OF 2, of q]]
        filterlim_compose [OF norm_cdf_at_bot arg_at_bot(2) [OF 2, of q]]
      by simp
  next
    case 3
    then have "L = norm_cdf 0" by (simp add: L_def norm_cdf_0)
    then show ?thesis
      using isCont_tendsto_compose [OF isCont_norm_cdf arg_at_zero(1) [of q]]
        isCont_tendsto_compose [OF isCont_norm_cdf arg_at_zero(2) [of q]]
      by (simp add: 3)
  qed
  then show "((\<lambda>s. norm_cdf (c * inverse s + s * q / 2)) \<longlongrightarrow> L) (at_right 0)"
    and "((\<lambda>s. norm_cdf (c * inverse s + s * q / 2 - s * q)) \<longlongrightarrow> L) (at_right 0)"
    by blast+
qed

text \<open>
  C8: for \<open>S > 0\<close>, \<open>K > 0\<close>, \<open>T > 0\<close> and any \<open>r\<close>, the call price converges to
  \<open>max (S - K * exp (- r * T)) 0\<close> as \<open>sigma\<close> tends to \<open>0\<close> from above.
\<close>

theorem call_limit_sigma_to_zero:
  assumes "S > 0" and "K > 0" and "T > 0"
  shows "((\<lambda>sigma. black_scholes_call S K T r sigma) \<longlongrightarrow> max (S - K * exp (- r * T)) 0)
           (at_right 0)"
proof -
  define a where "a = ln (S / K) + r * T"
  define q where "q = sqrt T"
  define c where "c = a / q"
  define k where "k = K * exp (- r * T)"
  define L :: real where "L = (if 0 < c then 1 else if c < 0 then 0 else 1 / 2)"
  have q: "0 < q" using assms by (simp add: q_def)
  have lim: "((\<lambda>s. S * norm_cdf (c * inverse s + s * q / 2)
                   - k * norm_cdf (c * inverse s + s * q / 2 - s * q))
               \<longlongrightarrow> S * L - k * L) (at_right 0)"
    unfolding L_def
    by (intro tendsto_diff tendsto_mult tendsto_const cdf_limits)
  have ev: "eventually (\<lambda>s. S * norm_cdf (c * inverse s + s * q / 2)
                   - k * norm_cdf (c * inverse s + s * q / 2 - s * q)
                 = black_scholes_call S K T r s) (at_right 0)"
    using eventually_at_right_less [of "0::real"]
  proof eventually_elim
    case (elim s)
    have "d1_of S K T r s = c * inverse s + s * q / 2"
      using d1_of_split [OF assms(3) elim, of S K r] by (simp add: c_def a_def q_def)
    then show ?case
      by (simp add: black_scholes_call_d1 k_def q_def)
  qed
  have call: "((\<lambda>sigma. black_scholes_call S K T r sigma) \<longlongrightarrow> S * L - k * L) (at_right 0)"
    using lim tendsto_cong [OF ev] by blast
  have "S / K = exp (ln (S / K))" using assms by simp
  then have S: "S = K * exp (ln (S / K))" using assms by (simp add: field_simps)
  have diff: "S - k = K * (exp (ln (S / K)) - exp (- r * T))"
    by (subst S) (simp add: k_def algebra_simps)
  have sign_pos: "0 < c \<longleftrightarrow> 0 < S - k"
  proof -
    have "0 < c \<longleftrightarrow> 0 < a" using q by (simp add: c_def zero_less_divide_iff)
    also have "\<dots> \<longleftrightarrow> - r * T < ln (S / K)" by (auto simp: a_def)
    also have "\<dots> \<longleftrightarrow> exp (- r * T) < exp (ln (S / K))" by simp
    also have "\<dots> \<longleftrightarrow> 0 < S - k" using assms by (simp add: diff zero_less_mult_iff)
    finally show ?thesis .
  qed
  have sign_neg: "c < 0 \<longleftrightarrow> S - k < 0"
  proof -
    have "c < 0 \<longleftrightarrow> a < 0" using q by (simp add: c_def divide_less_0_iff)
    also have "\<dots> \<longleftrightarrow> ln (S / K) < - r * T" by (auto simp: a_def)
    also have "\<dots> \<longleftrightarrow> exp (ln (S / K)) < exp (- r * T)" by simp
    also have "\<dots> \<longleftrightarrow> S - k < 0" using assms by (simp add: diff mult_less_0_iff)
    finally show ?thesis .
  qed
  have "S * L - k * L = max (S - k) 0"
  proof -
    consider "0 < c" | "c < 0" | "c = 0" by linarith
    then show ?thesis
    proof cases
      case 1
      then show ?thesis using sign_pos by (simp add: L_def)
    next
      case 2
      then show ?thesis using sign_neg by (simp add: L_def)
    next
      case 3
      then have "S - k = 0" using sign_pos sign_neg by linarith
      then show ?thesis using 3 by (simp add: L_def)
    qed
  qed
  then show ?thesis using call by (simp add: k_def)
qed

theorem call_limit_sigma_to_zero_witness:
  "(100::real) > 0 \<and> (1::real) > 0
   \<and> ((\<lambda>sigma. black_scholes_call 100 100 1 0.05 sigma) \<longlongrightarrow> max (100 - 100 * exp (- 0.05 * 1)) 0)
        (at_right 0)"
  using call_limit_sigma_to_zero [of 100 100 1 "0.05"] by simp

section \<open>Enclosures of pi, of the exponential and of the normal distribution\<close>

lemma arctan_lower7:
  assumes "0 \<le> x"
  shows "x - x ^ 3 / 3 + x ^ 5 / 5 - x ^ 7 / 7 \<le> arctan x"
proof -
  let ?f = "\<lambda>t::real. arctan t - (t - t ^ 3 / 3 + t ^ 5 / 5 - t ^ 7 / 7)"
  have "?f 0 \<le> ?f x"
  proof (rule DERIV_nonneg_imp_nondecreasing [OF assms])
    fix t :: real
    have p: "0 < 1 + t\<^sup>2" by (simp add: add_pos_nonneg)
    have d: "(?f has_real_derivative inverse (1 + t\<^sup>2) - (1 - t ^ 2 + t ^ 4 - t ^ 6)) (at t)"
      by (auto intro!: derivative_eq_intros)
    have "(1 - t ^ 2 + t ^ 4 - t ^ 6) * (1 + t\<^sup>2) = 1 - t ^ 8"
      by (simp add: algebra_simps power2_eq_square power_numeral_reduce)
    then have "inverse (1 + t\<^sup>2) - (1 - t ^ 2 + t ^ 4 - t ^ 6) = t ^ 8 / (1 + t\<^sup>2)"
      using p by (simp add: field_simps)
    moreover have "0 \<le> t ^ 8 / (1 + t\<^sup>2)"
      using p by (intro divide_nonneg_pos zero_le_even_power) simp_all
    ultimately show "\<exists>y. (?f has_real_derivative y) (at t) \<and> 0 \<le> y"
      using d by auto
  qed
  then show ?thesis by simp
qed

lemma arctan_upper9:
  assumes "0 \<le> x"
  shows "arctan x \<le> x - x ^ 3 / 3 + x ^ 5 / 5 - x ^ 7 / 7 + x ^ 9 / 9"
proof -
  let ?f = "\<lambda>t::real. (t - t ^ 3 / 3 + t ^ 5 / 5 - t ^ 7 / 7 + t ^ 9 / 9) - arctan t"
  have "?f 0 \<le> ?f x"
  proof (rule DERIV_nonneg_imp_nondecreasing [OF assms])
    fix t :: real
    have p: "0 < 1 + t\<^sup>2" by (simp add: add_pos_nonneg)
    have d: "(?f has_real_derivative (1 - t ^ 2 + t ^ 4 - t ^ 6 + t ^ 8) - inverse (1 + t\<^sup>2)) (at t)"
      by (auto intro!: derivative_eq_intros)
    have "(1 - t ^ 2 + t ^ 4 - t ^ 6 + t ^ 8) * (1 + t\<^sup>2) = 1 + t ^ 10"
      by (simp add: algebra_simps power2_eq_square power_numeral_reduce)
    then have "(1 - t ^ 2 + t ^ 4 - t ^ 6 + t ^ 8) - inverse (1 + t\<^sup>2) = t ^ 10 / (1 + t\<^sup>2)"
      using p by (simp add: field_simps)
    moreover have "0 \<le> t ^ 10 / (1 + t\<^sup>2)"
      using p by (intro divide_nonneg_pos zero_le_even_power) simp_all
    ultimately show "\<exists>y. (?f has_real_derivative y) (at t) \<and> 0 \<le> y"
      using d by auto
  qed
  then show ?thesis by simp
qed

lemma arctan_lower3:
  assumes "0 \<le> x"
  shows "x - x ^ 3 / 3 \<le> arctan x"
proof -
  let ?f = "\<lambda>t::real. arctan t - (t - t ^ 3 / 3)"
  have "?f 0 \<le> ?f x"
  proof (rule DERIV_nonneg_imp_nondecreasing [OF assms])
    fix t :: real
    have p: "0 < 1 + t\<^sup>2" by (simp add: add_pos_nonneg)
    have d: "(?f has_real_derivative inverse (1 + t\<^sup>2) - (1 - t ^ 2)) (at t)"
      by (auto intro!: derivative_eq_intros)
    have "(1 - t ^ 2) * (1 + t\<^sup>2) = 1 - t ^ 4"
      by (simp add: algebra_simps power2_eq_square power_numeral_reduce)
    then have "inverse (1 + t\<^sup>2) - (1 - t ^ 2) = t ^ 4 / (1 + t\<^sup>2)"
      using p by (simp add: field_simps)
    moreover have "0 \<le> t ^ 4 / (1 + t\<^sup>2)"
      using p by (intro divide_nonneg_pos zero_le_even_power) simp_all
    ultimately show "\<exists>y. (?f has_real_derivative y) (at t) \<and> 0 \<le> y"
      using d by auto
  qed
  then show ?thesis by simp
qed

lemma arctan_upper1:
  assumes "0 \<le> x"
  shows "arctan x \<le> x"
proof -
  let ?f = "\<lambda>t::real. t - arctan t"
  have "?f 0 \<le> ?f x"
  proof (rule DERIV_nonneg_imp_nondecreasing [OF assms])
    fix t :: real
    have p: "0 < 1 + t\<^sup>2" by (simp add: add_pos_nonneg)
    have d: "(?f has_real_derivative 1 - inverse (1 + t\<^sup>2)) (at t)"
      by (auto intro!: derivative_eq_intros)
    have "1 - inverse (1 + t\<^sup>2) = t ^ 2 / (1 + t\<^sup>2)"
      using p by (simp add: field_simps)
    moreover have "0 \<le> t ^ 2 / (1 + t\<^sup>2)"
      using p by (intro divide_nonneg_pos) simp_all
    ultimately show "\<exists>y. (?f has_real_derivative y) (at t) \<and> 0 \<le> y"
      using d by auto
  qed
  then show ?thesis by simp
qed

lemma pi_bounds: "3.14159 < pi" "pi < 3.14160"
proof -
  have m: "pi = 16 * arctan (1 / 5) - 4 * arctan (1 / 239)"
    using machin by simp
  have a: "(1 / 5) - (1 / 5) ^ 3 / 3 + (1 / 5) ^ 5 / 5 - (1 / 5) ^ 7 / 7 \<le> arctan (1 / 5)"
    by (rule arctan_lower7) simp
  have b: "arctan (1 / 5)
             \<le> (1 / 5) - (1 / 5) ^ 3 / 3 + (1 / 5) ^ 5 / 5 - (1 / 5) ^ 7 / 7 + (1 / 5) ^ 9 / 9"
    by (rule arctan_upper9) simp
  have c: "(1 / 239) - (1 / 239) ^ 3 / 3 \<le> arctan (1 / 239)"
    by (rule arctan_lower3) simp
  have d: "arctan (1 / 239) \<le> 1 / 239"
    by (rule arctan_upper1) simp
  show "3.14159 < pi"
    unfolding m using a d by (simp add: power_numeral_reduce)
  show "pi < 3.14160"
    unfolding m using b c by (simp add: power_numeral_reduce)
qed

lemma sqrt_two_pi_bounds: "2.50662 \<le> sqrt (2 * pi)" "sqrt (2 * pi) \<le> 2.50664"
proof -
  have "(2.50662::real)\<^sup>2 \<le> 2 * pi"
    using pi_bounds(1) by (simp add: power2_eq_square)
  then show "2.50662 \<le> sqrt (2 * pi)"
    by (rule real_le_rsqrt)
  have "2 * pi \<le> (2.50664::real)\<^sup>2"
    using pi_bounds(2) by (simp add: power2_eq_square)
  then show "sqrt (2 * pi) \<le> 2.50664"
    by (intro real_le_lsqrt) simp_all
qed

lemma exp_minus_twentieth_bounds:
  "0.951229 \<le> exp (- (1 / 20) :: real)" "exp (- (1 / 20) :: real) \<le> 0.951230"
proof -
  obtain t :: real where t: "\<bar>t\<bar> \<le> \<bar>- (1 / 20)\<bar>"
    and e: "exp (- (1 / 20) :: real)
              = (\<Sum>m<4. ((- (1 / 20)) ^ m) / fact m) + (exp t / fact 4) * (- (1 / 20)) ^ 4"
    using Maclaurin_exp_le [of "- (1 / 20)" 4] by blast
  have s: "(\<Sum>m<4. ((- (1 / 20 :: real)) ^ m) / fact m) = 1 - 1 / 20 + 1 / 800 - 1 / 48000"
    by (simp add: eval_nat_numeral lessThan_Suc)
  have r: "(exp t / fact 4) * (- (1 / 20)) ^ 4 = exp t / 3840000"
    by (simp add: eval_nat_numeral)
  have "t \<le> 1 / 2" using t by simp
  then have "exp t \<le> exp (1 / 2)" by simp
  also have "exp (1 / 2 :: real) \<le> 2"
    using exp_bound_half [of "1 / 2 :: real"] by simp
  finally have u: "exp t \<le> 2" .
  have l: "0 \<le> exp t" by simp
  have c1: "(0.951229::real) \<le> 1 - 1 / 20 + 1 / 800 - 1 / 48000" by simp
  have c2: "0 \<le> exp t / 3840000" by simp
  show "0.951229 \<le> exp (- (1 / 20) :: real)"
    unfolding e s r by (rule add_increasing2 [OF c2 c1])
  have c3: "exp t / 3840000 \<le> 2 / 3840000"
    using u by (rule divide_right_mono) simp
  have c4: "1 - 1 / 20 + 1 / 800 - 1 / 48000 + 2 / 3840000 \<le> (0.951230::real)" by simp
  show "exp (- (1 / 20) :: real) \<le> 0.951230"
    unfolding e s r by (rule order_trans [OF add_left_mono [OF c3] c4])
qed

lemma h_term_nonneg: "0 \<le> y \<Longrightarrow> 0 \<le> h_term y m"
  by (simp add: h_term_def)

lemma h_term_decreasing:
  assumes "0 \<le> y" and "y \<le> 1"
  shows "h_term y (Suc m) \<le> h_term y m"
proof -
  have "h_term y (Suc m) = y ^ m * y / (fact m * (real (Suc m) * real (2 * m + 3)))"
    by (simp add: h_term_def mult_ac)
  also have "\<dots> \<le> y ^ m * 1 / (fact m * real (2 * m + 1))"
  proof (rule frac_le)
    show "0 \<le> y ^ m * 1" using assms by simp
    show "y ^ m * y \<le> y ^ m * 1" using assms by (intro mult_left_mono) simp_all
    show "0 < fact m * real (2 * m + 1)" by simp
    have "real (2 * m + 1) \<le> real (Suc m) * real (2 * m + 3)"
      by (simp add: algebra_simps)
    then show "fact m * real (2 * m + 1) \<le> fact m * (real (Suc m) * real (2 * m + 3))"
      by (intro mult_left_mono) simp_all
  qed
  finally show ?thesis by (simp add: h_term_def)
qed

lemma h_term_tendsto_0:
  assumes "0 \<le> y"
  shows "h_term y \<longlonglongrightarrow> 0"
proof (rule real_tendsto_sandwich [where f = "\<lambda>_. 0" and h = "\<lambda>m. y ^ m /\<^sub>R fact m"])
  show "eventually (\<lambda>m. 0 \<le> h_term y m) sequentially"
    using h_term_nonneg [OF assms] by simp
  show "eventually (\<lambda>m. h_term y m \<le> y ^ m /\<^sub>R fact m) sequentially"
  proof (rule always_eventually, rule allI)
    fix m
    have "y ^ m / (fact m * real (2 * m + 1)) \<le> y ^ m / (fact m * 1)"
      using assms by (intro divide_left_mono mult_left_mono) simp_all
    then show "h_term y m \<le> y ^ m /\<^sub>R fact m"
      by (simp add: h_term_def divide_inverse mult.commute)
  qed
  show "(\<lambda>_. 0::real) \<longlonglongrightarrow> 0" by simp
  show "(\<lambda>m. y ^ m /\<^sub>R fact m) \<longlonglongrightarrow> 0"
    by (rule summable_LIMSEQ_zero [OF sums_summable [OF exp_converges]])
qed

lemma gauss_term_h_term:
  "gauss_term x m = x * ((- 1) ^ m * h_term (x\<^sup>2) m)"
  by (simp add: gauss_term_def h_term_def power_mult)

lemma gauss_int_h_sum:
  assumes "0 \<le> x" and "x \<le> 1"
  shows "gauss_int x = x * (\<Sum>m. (- 1) ^ m * h_term (x\<^sup>2) m)"
proof -
  have y: "0 \<le> x\<^sup>2" "x\<^sup>2 \<le> 1"
    using assms by (simp_all add: power_le_one)
  have "summable (\<lambda>m. (- 1) ^ m * h_term (x\<^sup>2) m)"
    by (rule summable_Leibniz'(1) [OF h_term_tendsto_0 [OF y(1)] h_term_nonneg [OF y(1)]
          h_term_decreasing [OF y]])
  then show ?thesis
    by (simp add: gauss_int_def gauss_term_h_term suminf_mult)
qed

lemma norm_cdf_h_sum:
  assumes "0 \<le> x" and "x \<le> 1"
  shows "norm_cdf x = 1 / 2 + x * (\<Sum>m. (- 1) ^ m * h_term (x\<^sup>2 / 2) m) / sqrt (2 * pi)"
proof -
  have a: "0 \<le> x / sqrt 2" using assms by simp
  have "x / sqrt 2 \<le> x / 1"
    using assms by (intro divide_left_mono) simp_all
  also have "x / 1 \<le> 1" using assms by simp
  finally have b: "x / sqrt 2 \<le> 1" .
  have sq: "(x / sqrt 2)\<^sup>2 = x\<^sup>2 / 2" by (simp add: power_divide)
  have "norm_cdf x = (1 + 2 / sqrt pi * (x / sqrt 2 * (\<Sum>m. (- 1) ^ m * h_term (x\<^sup>2 / 2) m))) / 2"
    unfolding norm_cdf_def erf_def gauss_int_h_sum [OF a b] sq ..
  also have "\<dots> = 1 / 2 + x * (\<Sum>m. (- 1) ^ m * h_term (x\<^sup>2 / 2) m) / (sqrt pi * sqrt 2)"
    by (simp add: field_simps)
  finally show ?thesis by (simp add: real_sqrt_mult mult.commute)
qed

lemma h_sum_bounds:
  assumes "0 \<le> y" and "y \<le> 1"
  shows "1 - y / 3 + y\<^sup>2 / 10 - y ^ 3 / 42 \<le> (\<Sum>m. (- 1) ^ m * h_term y m)"
    and "(\<Sum>m. (- 1) ^ m * h_term y m) \<le> 1 - y / 3 + y\<^sup>2 / 10"
proof -
  note L = summable_Leibniz' [OF h_term_tendsto_0 [OF assms(1)] h_term_nonneg [OF assms(1)]
        h_term_decreasing [OF assms]]
  have "(\<Sum>i<2 * 2. (- 1) ^ i * h_term y i) = 1 - y / 3 + y\<^sup>2 / 10 - y ^ 3 / 42"
    by (simp add: eval_nat_numeral lessThan_Suc h_term_def)
  then show "1 - y / 3 + y\<^sup>2 / 10 - y ^ 3 / 42 \<le> (\<Sum>m. (- 1) ^ m * h_term y m)"
    using L(2) [of 2] by simp
  have "(\<Sum>i<2 * 1 + 1. (- 1) ^ i * h_term y i) = 1 - y / 3 + y\<^sup>2 / 10"
    by (simp add: eval_nat_numeral lessThan_Suc h_term_def)
  then show "(\<Sum>m. (- 1) ^ m * h_term y m) \<le> 1 - y / 3 + y\<^sup>2 / 10"
    using L(4) [of 1] by simp
qed

section \<open>The reference example\<close>

lemma norm_cdf_enclosure:
  assumes "0 \<le> x" and "x \<le> 1"
  shows "1 / 2 + x * (1 - (x\<^sup>2 / 2) / 3 + (x\<^sup>2 / 2)\<^sup>2 / 10 - (x\<^sup>2 / 2) ^ 3 / 42) / 2.50664
           \<le> norm_cdf x"
    and "norm_cdf x \<le> 1 / 2 + x * (1 - (x\<^sup>2 / 2) / 3 + (x\<^sup>2 / 2)\<^sup>2 / 10) / 2.50662"
proof -
  define y where "y = x\<^sup>2 / 2"
  define H where "H = (\<Sum>m. (- 1) ^ m * h_term y m)"
  have y0: "0 \<le> y" by (simp add: y_def)
  have "x\<^sup>2 \<le> 1" using assms by (simp add: power_le_one)
  then have y1: "y \<le> 1" by (simp add: y_def)
  have lo: "1 - y / 3 + y\<^sup>2 / 10 - y ^ 3 / 42 \<le> H"
    and hi: "H \<le> 1 - y / 3 + y\<^sup>2 / 10"
    unfolding H_def by (rule h_sum_bounds [OF y0 y1])+
  have "y ^ 3 / 42 \<le> y\<^sup>2 / 10"
  proof -
    have "y ^ 3 = y\<^sup>2 * y" by (simp add: power3_eq_cube power2_eq_square)
    also have "\<dots> \<le> y\<^sup>2 * 1" using y1 by (intro mult_left_mono) simp_all
    finally have "y ^ 3 \<le> y\<^sup>2" by simp
    then have "y ^ 3 / 42 \<le> y\<^sup>2 / 42" by (rule divide_right_mono) simp
    also have "\<dots> \<le> y\<^sup>2 / 10" by (intro divide_left_mono) simp_all
    finally show ?thesis .
  qed
  moreover have "y / 3 \<le> 1" using y1 by simp
  ultimately have l0: "0 \<le> 1 - y / 3 + y\<^sup>2 / 10 - y ^ 3 / 42" by linarith
  have H0: "0 \<le> H" using l0 lo by linarith
  have cdf: "norm_cdf x = 1 / 2 + x * H / sqrt (2 * pi)"
    unfolding H_def y_def by (rule norm_cdf_h_sum [OF assms])
  have sp: "0 < sqrt (2 * pi)" by simp
  have "x * (1 - y / 3 + y\<^sup>2 / 10 - y ^ 3 / 42) / 2.50664 \<le> x * H / sqrt (2 * pi)"
  proof (rule frac_le)
    show "0 \<le> x * H" using assms H0 by simp
    show "x * (1 - y / 3 + y\<^sup>2 / 10 - y ^ 3 / 42) \<le> x * H"
      by (rule mult_left_mono [OF lo assms(1)])
    show "0 < sqrt (2 * pi)" by (rule sp)
    show "sqrt (2 * pi) \<le> 2.50664" by (rule sqrt_two_pi_bounds)
  qed
  then show "1 / 2 + x * (1 - (x\<^sup>2 / 2) / 3 + (x\<^sup>2 / 2)\<^sup>2 / 10 - (x\<^sup>2 / 2) ^ 3 / 42) / 2.50664
           \<le> norm_cdf x"
    unfolding cdf y_def by simp
  have "x * H / sqrt (2 * pi) \<le> x * (1 - y / 3 + y\<^sup>2 / 10) / 2.50662"
  proof (rule frac_le)
    have xH: "0 \<le> x * H" using assms H0 by simp
    show le: "x * H \<le> x * (1 - y / 3 + y\<^sup>2 / 10)"
      by (rule mult_left_mono [OF hi assms(1)])
    show "0 \<le> x * (1 - y / 3 + y\<^sup>2 / 10)"
      by (rule order_trans [OF xH le])
    show "(0::real) < 2.50662" by simp
    show "2.50662 \<le> sqrt (2 * pi)" by (rule sqrt_two_pi_bounds)
  qed
  then show "norm_cdf x \<le> 1 / 2 + x * (1 - (x\<^sup>2 / 2) / 3 + (x\<^sup>2 / 2)\<^sup>2 / 10) / 2.50662"
    unfolding cdf y_def by simp
qed

lemma norm_cdf_035: "0.636830 \<le> norm_cdf 0.35" "norm_cdf 0.35 \<le> 0.636832"
proof -
  have "(0.636830::real)
          \<le> 1 / 2 + 0.35 * (1 - (0.35\<^sup>2 / 2) / 3 + (0.35\<^sup>2 / 2)\<^sup>2 / 10 - (0.35\<^sup>2 / 2) ^ 3 / 42)
                  / 2.50664"
    by (simp add: power_numeral_reduce)
  also have "\<dots> \<le> norm_cdf 0.35"
    by (rule norm_cdf_enclosure) simp_all
  finally show "0.636830 \<le> norm_cdf 0.35" .
  have "norm_cdf 0.35 \<le> 1 / 2 + 0.35 * (1 - (0.35\<^sup>2 / 2) / 3 + (0.35\<^sup>2 / 2)\<^sup>2 / 10) / 2.50662"
    by (rule norm_cdf_enclosure) simp_all
  also have "\<dots> \<le> (0.636832::real)"
    by (simp add: power_numeral_reduce)
  finally show "norm_cdf 0.35 \<le> 0.636832" .
qed

lemma norm_cdf_015: "0.559617 \<le> norm_cdf 0.15" "norm_cdf 0.15 \<le> 0.559618"
proof -
  have "(0.559617::real)
          \<le> 1 / 2 + 0.15 * (1 - (0.15\<^sup>2 / 2) / 3 + (0.15\<^sup>2 / 2)\<^sup>2 / 10 - (0.15\<^sup>2 / 2) ^ 3 / 42)
                  / 2.50664"
    by (simp add: power_numeral_reduce)
  also have "\<dots> \<le> norm_cdf 0.15"
    by (rule norm_cdf_enclosure) simp_all
  finally show "0.559617 \<le> norm_cdf 0.15" .
  have "norm_cdf 0.15 \<le> 1 / 2 + 0.15 * (1 - (0.15\<^sup>2 / 2) / 3 + (0.15\<^sup>2 / 2)\<^sup>2 / 10) / 2.50662"
    by (rule norm_cdf_enclosure) simp_all
  also have "\<dots> \<le> (0.559618::real)"
    by (simp add: power_numeral_reduce)
  finally show "norm_cdf 0.15 \<le> 0.559618" .
qed

lemma example_call_value:
  "black_scholes_call 100 100 1 0.05 0.2
     = 100 * norm_cdf 0.35 - 100 * exp (- (1 / 20)) * norm_cdf 0.15"
proof -
  have d1: "(ln (100 / 100) + (0.05 + 0.5 * 0.2\<^sup>2) * 1) / (0.2 * sqrt 1) = (0.35::real)"
    by (simp add: power2_eq_square)
  have d2: "(0.35::real) - 0.2 * sqrt 1 = 0.15" by simp
  have r: "- (0.05::real) * 1 = - (1 / 20)" by simp
  show ?thesis
    unfolding black_scholes_call_def Let_def d1 d2 r ..
qed

text \<open>
  C5: for \<open>S = 100\<close>, \<open>K = 100\<close>, \<open>T = 1\<close>, \<open>r = 0.05\<close>, \<open>sigma = 0.2\<close> the call price
  is 10.45 and the put price is 5.57, to two decimal places.
\<close>

theorem example_prices:
  "\<bar>black_scholes_call 100 100 1 0.05 0.2 - 10.45\<bar> < 0.005
   \<and> \<bar>black_scholes_put 100 100 1 0.05 0.2 - 5.57\<bar> < 0.005"
proof -
  define A where "A = norm_cdf 0.35"
  define B where "B = norm_cdf 0.15"
  define E where "E = exp (- (1 / 20) :: real)"
  have A: "0.636830 \<le> A" "A \<le> 0.636832" unfolding A_def by (rule norm_cdf_035)+
  have B: "0.559617 \<le> B" "B \<le> 0.559618" unfolding B_def by (rule norm_cdf_015)+
  have E: "0.951229 \<le> E" "E \<le> 0.951230" unfolding E_def by (rule exp_minus_twentieth_bounds)+
  have call: "black_scholes_call 100 100 1 0.05 0.2 = 100 * A - 100 * (E * B)"
    unfolding example_call_value A_def B_def E_def by simp
  have put: "black_scholes_put 100 100 1 0.05 0.2 = 100 * A - 100 * (E * B) - 100 + 100 * E"
  proof -
    have "- (0.05::real) * 1 = - (1 / 20)" by simp
    then show ?thesis
      unfolding black_scholes_put_call call E_def by (simp only:)
  qed
  have EB_lo: "0.951229 * 0.559617 \<le> E * B"
    by (rule mult_mono [OF E(1) B(1)]) (use E in simp_all)
  have EB_hi: "E * B \<le> 0.951230 * 0.559618"
    by (rule mult_mono [OF E(2) B(2)]) (use B in simp_all)
  have c1: "10.45 - 0.005 < 100 * A - 100 * (E * B)"
    using A EB_hi by simp
  have c2: "100 * A - 100 * (E * B) < 10.45 + 0.005"
    using A EB_lo by simp
  have e: "100 * A - 100 * (E * B) - 100 + 100 * E = 100 * A - 100 + 100 * (E * (1 - B))"
    by (simp add: algebra_simps)
  have lo: "0.951229 * (1 - 0.559618) \<le> E * (1 - B)"
    by (rule mult_mono) (use E B in simp_all)
  have hi: "E * (1 - B) \<le> 0.951230 * (1 - 0.559617)"
    by (rule mult_mono) (use E B in simp_all)
  have p1: "5.57 - 0.005 < 100 * A - 100 * (E * B) - 100 + 100 * E"
    unfolding e using A lo by simp
  have p2: "100 * A - 100 * (E * B) - 100 + 100 * E < 5.57 + 0.005"
    unfolding e using A hi by simp
  show ?thesis
    unfolding call put abs_diff_less_iff using c1 c2 p1 p2 by blast
qed

section \<open>Degenerate inputs\<close>

lemma d1_np_defined:
  "sigma * sqrt T \<noteq> 0 \<Longrightarrow> d1_np S K T r sigma = Some (d1_of S K T r sigma)"
  by (simp add: d1_np_def np_divide_def d1_of_def)

lemma np_agrees:
  assumes "S \<noteq> 0" and "sigma * sqrt T \<noteq> 0"
  shows "black_scholes_call_np S K T r sigma = Some (black_scholes_call S K T r sigma)"
    and "black_scholes_put_np S K T r sigma = Some (black_scholes_put S K T r sigma)"
    and "option_greeks_np S K T r sigma option = Some (option_greeks S K T r sigma option)"
proof -
  have d: "d1_np S K T r sigma = Some (d1_of S K T r sigma)"
    by (rule d1_np_defined [OF assms(2)])
  show "black_scholes_call_np S K T r sigma = Some (black_scholes_call S K T r sigma)"
    by (simp add: black_scholes_call_np_def d black_scholes_call_def d1_of_def Let_def)
  show "black_scholes_put_np S K T r sigma = Some (black_scholes_put S K T r sigma)"
    by (simp add: black_scholes_put_np_def d black_scholes_put_def d1_of_def Let_def)
  have t: "sqrt T \<noteq> 0" "sigma \<noteq> 0" using assms(2) by auto
  show "option_greeks_np S K T r sigma option = Some (option_greeks S K T r sigma option)"
    using assms(1) t
    by (simp add: option_greeks_np_def d option_greeks_def d1_of_def Let_def np_divide_def)
qed



section \<open>The option argument\<close>








section \<open>Gamma and Vega\<close>

text \<open>
  C10: the Gamma and the Vega returned by \<open>option_greeks\<close> do not depend on the
  \<open>option\<close> argument: for \<open>S > 0\<close>, \<open>K > 0\<close>, \<open>T > 0\<close>, \<open>sigma > 0\<close>, any \<open>r\<close> and
  any two option strings, both calls return the same Gamma and the same Vega.
\<close>

theorem gamma_vega_independent_of_option:
  assumes "S > 0" and "K > 0" and "T > 0" and "sigma > 0"
  shows "Gamma_of (option_greeks S K T r sigma o1) = Gamma_of (option_greeks S K T r sigma o2)
       \<and> Vega_of (option_greeks S K T r sigma o1) = Vega_of (option_greeks S K T r sigma o2)"
  by (simp add: option_greeks_def Gamma_of_def Vega_of_def Let_def)

theorem gamma_vega_independent_of_option_witness:
  "(100::real) > 0 \<and> (0.2::real) > 0
   \<and> Gamma_of (option_greeks 100 100 1 0.05 0.2 ''call'')
       = Gamma_of (option_greeks 100 100 1 0.05 0.2 ''Put'')
   \<and> Vega_of (option_greeks 100 100 1 0.05 0.2 ''call'')
       = Vega_of (option_greeks 100 100 1 0.05 0.2 ''Put'')"
  using gamma_vega_independent_of_option [of 100 100 1 "0.2" "0.05" "''call''" "''Put''"]
  by simp

section \<open>The heatmap grid\<close>

lemma length_linspace: "length (linspace a b n) = n"
  by (simp add: linspace_def)

lemma nth_linspace:
  "i < n \<Longrightarrow> linspace a b n ! i = a + real i * ((b - a) / real (n - 1))"
  by (simp add: linspace_def)

lemma heat_inner_from:
  assumes "i < length (pnl st)" and "a + length xs \<le> length (pnl st ! i)"
  shows "\<exists>row'. heat_inner K T r pp opt i S (zip [a..<a + length xs] xs) st
           = Inr \<lparr>pnl = (pnl st)[i := row'],
                  written = written st @ map (Pair i) [a..<a + length xs]\<rparr>
         \<and> length row' = length (pnl st ! i)
         \<and> (\<forall>j. row' ! j = (if a \<le> j \<and> j < a + length xs
                               then heat_price opt S K T r (xs ! (j - a)) - pp
                               else pnl st ! i ! j))"
  using assms
proof (induction xs arbitrary: a st)
  case Nil
  show ?case
    by (rule exI [of _ "pnl st ! i"]) simp
next
  case (Cons x xs)
  let ?v = "heat_price opt S K T r x - pp"
  let ?st1 = "\<lparr>pnl = (pnl st)[i := (pnl st ! i)[a := ?v]], written = written st @ [(i, a)]\<rparr>"
  have a: "a < length (pnl st ! i)" using Cons.prems by simp
  have step: "set_item st i a ?v = Inr ?st1"
    using Cons.prems(1) a by (simp add: set_item_def)
  have i1: "i < length (pnl ?st1)" using Cons.prems(1) by simp
  have row1: "pnl ?st1 ! i = (pnl st ! i)[a := ?v]" using Cons.prems(1) by simp
  have l1: "Suc a + length xs \<le> length (pnl ?st1 ! i)" using Cons.prems(2) row1 by simp
  obtain row' where
    run: "heat_inner K T r pp opt i S (zip [Suc a..<Suc a + length xs] xs) ?st1
            = Inr \<lparr>pnl = (pnl ?st1)[i := row'],
                   written = written ?st1 @ map (Pair i) [Suc a..<Suc a + length xs]\<rparr>"
    and len: "length row' = length (pnl ?st1 ! i)"
    and val: "\<And>j. row' ! j = (if Suc a \<le> j \<and> j < Suc a + length xs
                               then heat_price opt S K T r (xs ! (j - Suc a)) - pp
                               else pnl ?st1 ! i ! j)"
    using Cons.IH [OF i1 l1] by blast
  have upt: "[a..<a + length (x # xs)] = a # [Suc a..<Suc a + length xs]"
    by (subst upt_rec) simp
  have "heat_inner K T r pp opt i S (zip [a..<a + length (x # xs)] (x # xs)) st
          = Inr \<lparr>pnl = (pnl st)[i := row'],
                 written = written st @ map (Pair i) [a..<a + length (x # xs)]\<rparr>"
    unfolding upt using step run by (simp add: Let_def)
  moreover have "length row' = length (pnl st ! i)"
    using len row1 by simp
  moreover have "row' ! j = (if a \<le> j \<and> j < a + length (x # xs)
                               then heat_price opt S K T r ((x # xs) ! (j - a)) - pp
                               else pnl st ! i ! j)" for j
  proof (cases "j = a")
    case True
    then show ?thesis using val [of j] row1 a by simp
  next
    case False
    then show ?thesis using val [of j] row1 by (auto simp: nth_Cons')
  qed
  ultimately show ?case by blast
qed

lemma heat_inner_row:
  assumes "i < length (pnl st)" and "length (pnl st ! i) = length sigs"
  shows "heat_inner K T r pp opt i S (enumerate_py sigs) st
           = Inr \<lparr>pnl = (pnl st)[i := map (cell_value K T r pp opt S) sigs],
                  written = written st @ map (Pair i) [0..<length sigs]\<rparr>"
proof -
  obtain row' where
    run: "heat_inner K T r pp opt i S (zip [0..<0 + length sigs] sigs) st
            = Inr \<lparr>pnl = (pnl st)[i := row'],
                   written = written st @ map (Pair i) [0..<0 + length sigs]\<rparr>"
    and len: "length row' = length (pnl st ! i)"
    and val: "\<And>j. row' ! j = (if 0 \<le> j \<and> j < 0 + length sigs
                               then heat_price opt S K T r (sigs ! (j - 0)) - pp
                               else pnl st ! i ! j)"
    using heat_inner_from [of i st 0 sigs K T r pp opt S] assms by auto
  have "row' = map (cell_value K T r pp opt S) sigs"
    by (rule nth_equalityI) (simp_all add: len assms(2) val cell_value_def)
  then show ?thesis using run by (simp add: enumerate_py_def)
qed

lemma heat_outer_from:
  assumes "a + length Ss \<le> length (pnl st)"
    and "\<forall>i < length (pnl st). length (pnl st ! i) = length sigs"
  shows "\<exists>m. heat_outer K T r pp opt sigs (zip [a..<a + length Ss] Ss) st
           = Inr \<lparr>pnl = m,
                  written = written st
                    @ concat (map (\<lambda>i. map (Pair i) [0..<length sigs]) [a..<a + length Ss])\<rparr>
         \<and> length m = length (pnl st)
         \<and> (\<forall>i. m ! i = (if a \<le> i \<and> i < a + length Ss
                           then map (cell_value K T r pp opt (Ss ! (i - a))) sigs
                           else pnl st ! i))"
  using assms
proof (induction Ss arbitrary: a st)
  case Nil
  show ?case by (rule exI [of _ "pnl st"]) auto
next
  case (Cons S Ss)
  let ?row = "map (cell_value K T r pp opt S) sigs"
  let ?st1 = "\<lparr>pnl = (pnl st)[a := ?row],
               written = written st @ map (Pair a) [0..<length sigs]\<rparr>"
  have a: "a < length (pnl st)" using Cons.prems(1) by simp
  have step: "heat_inner K T r pp opt a S (enumerate_py sigs) st = Inr ?st1"
    using heat_inner_row [OF a] Cons.prems(2) a by simp
  have l1: "Suc a + length Ss \<le> length (pnl ?st1)" using Cons.prems(1) by simp
  have r1: "\<forall>i < length (pnl ?st1). length (pnl ?st1 ! i) = length sigs"
    using Cons.prems(2) a by (auto simp: nth_list_update)
  obtain m where
    run: "heat_outer K T r pp opt sigs (zip [Suc a..<Suc a + length Ss] Ss) ?st1
            = Inr \<lparr>pnl = m,
                   written = written ?st1
                     @ concat (map (\<lambda>i. map (Pair i) [0..<length sigs])
                                [Suc a..<Suc a + length Ss])\<rparr>"
    and len: "length m = length (pnl ?st1)"
    and val: "\<And>i. m ! i = (if Suc a \<le> i \<and> i < Suc a + length Ss
                           then map (cell_value K T r pp opt (Ss ! (i - Suc a))) sigs
                           else pnl ?st1 ! i)"
    using Cons.IH [OF l1 r1] by blast
  have upt: "[a..<a + length (S # Ss)] = a # [Suc a..<Suc a + length Ss]"
    by (subst upt_rec) simp
  have "heat_outer K T r pp opt sigs (zip [a..<a + length (S # Ss)] (S # Ss)) st
          = Inr \<lparr>pnl = m,
                 written = written st
                   @ concat (map (\<lambda>i. map (Pair i) [0..<length sigs])
                              [a..<a + length (S # Ss)])\<rparr>"
    unfolding upt using step run by simp
  moreover have "length m = length (pnl st)" using len by simp
  moreover have "m ! i = (if a \<le> i \<and> i < a + length (S # Ss)
                           then map (cell_value K T r pp opt ((S # Ss) ! (i - a))) sigs
                           else pnl st ! i)" for i
  proof (cases "i = a")
    case True
    then show ?thesis using val [of i] a by simp
  next
    case False
    then show ?thesis using val [of i] by (auto simp: nth_Cons')
  qed
  ultimately show ?case by blast
qed

lemma heat_outer_matrix:
  assumes "length (pnl st) = length Ss"
    and "\<forall>i < length (pnl st). length (pnl st ! i) = length sigs"
  shows "heat_outer K T r pp opt sigs (enumerate_py Ss) st
           = Inr \<lparr>pnl = map (\<lambda>S. map (cell_value K T r pp opt S) sigs) Ss,
                  written = written st
                    @ concat (map (\<lambda>i. map (Pair i) [0..<length sigs]) [0..<length Ss])\<rparr>"
proof -
  obtain m where
    run: "heat_outer K T r pp opt sigs (zip [0..<0 + length Ss] Ss) st
           = Inr \<lparr>pnl = m,
                  written = written st
                    @ concat (map (\<lambda>i. map (Pair i) [0..<length sigs]) [0..<0 + length Ss])\<rparr>"
    and len: "length m = length (pnl st)"
    and val: "\<And>i. m ! i = (if 0 \<le> i \<and> i < 0 + length Ss
                           then map (cell_value K T r pp opt (Ss ! (i - 0))) sigs
                           else pnl st ! i)"
    using heat_outer_from [of 0 Ss st sigs K T r pp opt] assms by auto
  have "m = map (\<lambda>S. map (cell_value K T r pp opt S) sigs) Ss"
    by (rule nth_equalityI) (simp_all add: len assms(1) val)
  then show ?thesis using run by (simp add: enumerate_py_def)
qed

lemma plot_pnl_heatmap_eq:
  "plot_pnl_heatmap K T r pp opt
     = Inr \<lparr>pnl = map (\<lambda>S. map (cell_value K T r pp opt S) (linspace 0.1 0.6 8))
                    (linspace 50 150 8),
            written = concat (map (\<lambda>i. map (Pair i) [0..<8]) [0..<8])\<rparr>"
  unfolding plot_pnl_heatmap_def Let_def
  by (subst heat_outer_matrix) (simp_all add: length_linspace np_zeros_def)

lemma written_product:
  "concat (map (\<lambda>i. map (Pair i) [0..<n]) [0..<m]) = List.product [0..<m] [0..<n]"
  by (simp add: product_concat_map)

lemma count_list_distinct:
  "distinct xs \<Longrightarrow> x \<in> set xs \<Longrightarrow> count_list xs x = 1"
  by (induction xs) (auto simp: count_list_0_iff)


text \<open>
  C7: \<open>plot_pnl_heatmap\<close> returns an 8-by-8 profit/loss matrix whose entry
  \<open>(i, j)\<close> is the price of the selected option type at spot price \<open>S_i\<close> and
  volatility \<open>sigma_j\<close> minus the purchase price, where \<open>S_0, ..., S_7\<close> are the 8
  linearly spaced values from 50 to 150 and \<open>sigma_0, ..., sigma_7\<close> those from 0.1 to
  0.6; the loop performs 64 assignments and assigns every cell exactly once.
\<close>

theorem heatmap_matrix:
  "\<exists>st. plot_pnl_heatmap K T r purchase_price option = Inr st
      \<and> length (pnl st) = 8
      \<and> length (written st) = 64
      \<and> (\<forall>i<8. length (pnl st ! i) = 8
           \<and> (\<forall>j<8.
                 pnl st ! i ! j
                   = heat_price option (50 + real i * (100 / 7)) K T r (0.1 + real j * (0.5 / 7))
                     - purchase_price
               \<and> linspace 50 150 8 ! i = 50 + real i * (100 / 7)
               \<and> linspace 0.1 0.6 8 ! j = 0.1 + real j * (0.5 / 7)
               \<and> count_list (written st) (i, j) = 1))"
proof -
  let ?st = "\<lparr>pnl = map (\<lambda>S. map (cell_value K T r purchase_price option S)
                               (linspace 0.1 0.6 8)) (linspace 50 150 8),
             written = List.product [0..<8] [0..<8]\<rparr>"
  have run: "plot_pnl_heatmap K T r purchase_price option = Inr ?st"
    by (simp only: plot_pnl_heatmap_eq written_product)
  have len: "length (pnl ?st) = 8"
    by (simp add: length_linspace)
  have wlen: "length (written ?st) = 64"
    by (simp add: length_product)
  have cells: "length (pnl ?st ! i) = 8
           \<and> (\<forall>j<8.
                 pnl ?st ! i ! j
                   = heat_price option (50 + real i * (100 / 7)) K T r (0.1 + real j * (0.5 / 7))
                     - purchase_price
               \<and> linspace 50 150 8 ! i = 50 + real i * (100 / 7)
               \<and> linspace 0.1 0.6 8 ! j = 0.1 + real j * (0.5 / 7)
               \<and> count_list (written ?st) (i, j) = 1)" if i: "i < 8" for i
  proof (intro conjI allI impI)
    show "length (pnl ?st ! i) = 8"
      using i by (simp add: length_linspace)
  next
    fix j :: nat
    assume j: "j < 8"
    have S: "linspace 50 150 8 ! i = 50 + real i * (100 / 7)"
      using i by (simp add: nth_linspace)
    have sg: "linspace 0.1 0.6 8 ! j = 0.1 + real j * (0.5 / 7)"
      using j by (simp add: nth_linspace)
    show "linspace 50 150 8 ! i = 50 + real i * (100 / 7)" by (rule S)
    show "linspace 0.1 0.6 8 ! j = 0.1 + real j * (0.5 / 7)" by (rule sg)
    have "pnl ?st ! i ! j
            = cell_value K T r purchase_price option (linspace 50 150 8 ! i)
                (linspace 0.1 0.6 8 ! j)"
      using i j by (simp add: length_linspace)
    then show "pnl ?st ! i ! j
                 = heat_price option (50 + real i * (100 / 7)) K T r (0.1 + real j * (0.5 / 7))
                   - purchase_price"
      by (simp only: S sg cell_value_def)
    show "count_list (written ?st) (i, j) = 1"
      using i j by (simp add: count_list_distinct distinct_product)
  qed
  show ?thesis
    using run len wlen cells by blast
qed

theorem heatmap_matrix_witness:
  "\<exists>st. plot_pnl_heatmap 100 1 0.05 10 ''call'' = Inr st
      \<and> length (pnl st) = 8
      \<and> length (pnl st ! 7) = 8
      \<and> pnl st ! 7 ! 0 = black_scholes_call 150 100 1 0.05 0.1 - 10
      \<and> count_list (written st) (7, 0) = 1"
proof -
  obtain st where
    "plot_pnl_heatmap 100 1 0.05 10 ''call'' = Inr st" "length (pnl st) = 8"
    "\<forall>i<8. length (pnl st ! i) = 8
           \<and> (\<forall>j<8.
                 pnl st ! i ! j
                   = heat_price ''call'' (50 + real i * (100 / 7)) 100 1 0.05 (0.1 + real j * (0.5 / 7))
                     - 10
               \<and> linspace 50 150 8 ! i = 50 + real i * (100 / 7)
               \<and> linspace 0.1 0.6 8 ! j = 0.1 + real j * (0.5 / 7)
               \<and> count_list (written st) (i, j) = 1)"
    using heatmap_matrix [of 100 1 "0.05" 10 "''call''"] by blast
  then have "plot_pnl_heatmap 100 1 0.05 10 ''call'' = Inr st
      \<and> length (pnl st) = 8
      \<and> length (pnl st ! 7) = 8
      \<and> pnl st ! 7 ! 0 = heat_price ''call'' (50 + real (7::nat) * (100 / 7)) 100 1 0.05 (0.1 + real (0::nat) * (0.5 / 7)) - 10
      \<and> count_list (written st) (7, 0) = 1"
    by simp
  then show ?thesis
    by (auto simp: heat_price_def)
qed

section \<open>The Greek curve\<close>

lemma curve_step_selected:
  "greek \<in> set greek_choices \<Longrightarrow>
   curve_step K T r sigma greek option values S
     = values @ [selected_greek greek (option_greeks S K T r sigma option)]"
  by (cases "option_greeks S K T r sigma option")
     (auto simp: curve_step_def selected_greek_def greek_choices_def
        Delta_of_def Gamma_of_def Vega_of_def Theta_of_def Rho_of_def)

lemma foldl_curve_step:
  "greek \<in> set greek_choices \<Longrightarrow>
   foldl (curve_step K T r sigma greek option) acc Ss
     = acc @ map (\<lambda>S. selected_greek greek (option_greeks S K T r sigma option)) Ss"
  by (induction Ss arbitrary: acc) (simp_all add: curve_step_selected)

text \<open>
  C9: for each of the five selectable Greek names, \<open>plot_greek_curve\<close> evaluates
  \<open>option_greeks\<close> at the 100 linearly spaced spot prices from 50 to 150 and collects
  one value per spot price, the selected Greek at that spot price for the given option
  type: a curve of 100 points.
\<close>

theorem greek_curve_points:
  "greek \<in> set greek_choices \<Longrightarrow>
   (case plot_greek_curve K T r sigma greek option of (S_vals, values) \<Rightarrow>
      length S_vals = 100 \<and> length values = 100
    \<and> (\<forall>i<100. S_vals ! i = 50 + real i * (100 / 99)
          \<and> values ! i = selected_greek greek (option_greeks (S_vals ! i) K T r sigma option)))"
  by (simp add: plot_greek_curve_def Let_def foldl_curve_step length_linspace nth_linspace)

theorem greek_curve_points_witness:
  "''Vega'' \<in> set greek_choices
   \<and> length (fst (plot_greek_curve 100 1 0.05 0.2 ''Vega'' ''Put'')) = 100
   \<and> length (snd (plot_greek_curve 100 1 0.05 0.2 ''Vega'' ''Put'')) = 100
   \<and> fst (plot_greek_curve 100 1 0.05 0.2 ''Vega'' ''Put'') ! 99 = 150
   \<and> snd (plot_greek_curve 100 1 0.05 0.2 ''Vega'' ''Put'') ! 99
       = Vega_of (option_greeks 150 100 1 0.05 0.2 ''Put'')"
proof -
  have m: "''Vega'' \<in> set greek_choices" by (simp add: greek_choices_def)
  show ?thesis
    using m greek_curve_points [OF m, of 100 1 "0.05" "0.2" "''Put''"]
    by (auto simp: selected_greek_def split: prod.splits)
qed

end
